theory Spec2Isabelle
  imports Complex_Main "HOL-Library.Sublist"
begin

text \<open>
  A model of \<open>vscode/src/completions/get-current-doc-context.ts\<close>: the edit distance
  of two strings, the similarity of two lines, the search for the block of lines most similar
  to the line of the cursor, and the construction of the context around the cursor. The
  definitions follow the source function by function; the theorems after them state what
  the functions compute.
\<close>

section \<open>Strings, arrays and numbers of the host language\<close>

text \<open>
  A TypeScript string is modelled as a \<^typ>\<open>string\<close>: a list of characters, each standing
  for one code unit, so that \<open>s.length\<close> is \<^term>\<open>length s\<close> and \<open>s[i]\<close> is
  \<^term>\<open>s ! i\<close>. Lengths, indices, line numbers and offsets are natural numbers; where the
  source subtracts them the difference is an \<^typ>\<open>int\<close>.
\<close>

text \<open>
  A \<open>number\<close> of the host language is a binary64 floating-point value. The only numbers
  the search computes with are the quotient, the difference and the sums of
  \<open>semanticSimilarity\<close> and \<open>aggregateSimilarityScore\<close>; each is \<open>NaN\<close> or a finite
  double, held here as the rational it denotes. Every operation rounds its exact result to
  the nearest double, ties to the even significand, as the host does. String lengths and
  edit distances are integers below \<open>2^53\<close> and are exact. A sum of similarities would
  need more than \<open>2^1023\<close> terms to overflow, so infinities are left out.
\<close>

text \<open>The largest \<open>e\<close> with \<open>2^e \<le> n\<close>, and the smallest \<open>e\<close> with \<open>n \<le> 2^e\<close>.\<close>

fun floorLog2 :: "nat \<Rightarrow> nat" where
  "floorLog2 n = (if n < 2 then 0 else Suc (floorLog2 (n div 2)))"

definition ceilLog2 :: "nat \<Rightarrow> nat" where
  "ceilLog2 n = (if n \<le> 1 then 0 else Suc (floorLog2 (n - 1)))"

definition pow2 :: "int \<Rightarrow> rat" where
  "pow2 e = (if 0 \<le> e then 2 ^ nat e else 1 / 2 ^ nat (- e))"

text \<open>The binary exponent of a positive rational \<open>a\<close>: the \<open>e\<close> with
  \<open>2^e \<le> a < 2^(e + 1)\<close>.\<close>

definition binaryExponent :: "rat \<Rightarrow> int" where
  "binaryExponent a =
     (if 1 \<le> a then int (floorLog2 (nat \<lfloor>a\<rfloor>)) else - int (ceilLog2 (nat \<lceil>1 / a\<rceil>)))"

definition roundHalfEven :: "rat \<Rightarrow> int" where
  "roundHalfEven q =
     (let n = \<lfloor>q\<rfloor>; r = q - of_int n
      in if r < 1 / 2 then n else if 1 / 2 < r then n + 1 else if even n then n else n + 1)"

text \<open>
  Rounding to binary64: 53 significant bits, so the spacing of the doubles around a value
  of binary exponent \<open>e\<close> is \<open>2^(e - 52)\<close>; below \<open>2^-1022\<close> the spacing stays that of the
  subnormal numbers.
\<close>

definition roundDouble :: "rat \<Rightarrow> rat" where
  "roundDouble x =
     (if x = 0 then 0
      else
        (let a = \<bar>x\<bar>;
             e = max (binaryExponent a) (- 1022);
             ulp = pow2 (e - 52)
         in sgn x * rat_of_int (roundHalfEven (a / ulp)) * ulp))"

datatype number = NaN | Finite rat

text \<open>\<open>a + b\<close> and \<open>a > b\<close> on numbers: \<open>NaN\<close> propagates through \<open>+\<close> and makes every
  comparison false.\<close>

fun addNumber :: "number \<Rightarrow> number \<Rightarrow> number" where
  "addNumber (Finite a) (Finite b) = Finite (roundDouble (a + b))"
| "addNumber _ _ = NaN"

fun gtNumber :: "number \<Rightarrow> number \<Rightarrow> bool" where
  "gtNumber (Finite a) (Finite b) = (b < a)"
| "gtNumber _ _ = False"

text \<open>\<open>String.prototype.slice(0, e)\<close>: a negative end counts from the end of the string,
  and the end is clamped to the string.\<close>

definition sliceTo :: "string \<Rightarrow> int \<Rightarrow> string" where
  "sliceTo s e =
     (let len = int (length s);
          stop = (if e < 0 then max (len + e) 0 else min e len)
      in take (nat stop) s)"

text \<open>\<open>String.prototype.slice(b)\<close> for a start \<open>b \<ge> 0\<close>.\<close>

definition sliceFrom :: "string \<Rightarrow> nat \<Rightarrow> string" where
  "sliceFrom s b = drop (min b (length s)) s"

text \<open>\<open>Array.prototype.join('\n')\<close>.\<close>

fun joinNewline :: "string list \<Rightarrow> string" where
  "joinNewline [] = []"
| "joinNewline [l] = l"
| "joinNewline (l # ls) = l @ CHR 0x0A # joinNewline ls"

text \<open>
  Modelled from the spec: \<open>lines\<close> of \<open>./text-processing\<close> is not among the sources.
  The spec describes it as \<open>splitLines(text)\<close>, the newline-delimited sequence of
  segments of the text, empty trailing segments preserved; so the result always has
  at least one element.
\<close>

fun lines :: "string \<Rightarrow> string list" where
  "lines [] = [[]]"
| "lines (c # cs) =
     (if c = CHR 0x0A then [] # lines cs
      else (case lines cs of [] \<Rightarrow> [[c]] | l # ls \<Rightarrow> (c # l) # ls))"

section \<open>Edit distance\<close>

text \<open>
  \<open>levenshteinDistance\<close> fills a matrix of \<open>text2.length + 1\<close> rows of
  \<open>text1.length + 1\<close> cells. The matrix is a list of rows; the loops are recursive
  functions over the loop counter, passing the matrix along.
\<close>

text \<open>The first loop: \<open>matrix[i] = [...new Array(text1.length + 1)].map(x => 0)\<close> for
  \<open>i = 0 .. text2.length\<close>. Writing at the index one past the end appends a row.\<close>

definition setRow :: "nat list list \<Rightarrow> nat \<Rightarrow> nat list \<Rightarrow> nat list list" where
  "setRow matrix i row = (if i < length matrix then matrix[i := row] else matrix @ [row])"

function initMatrix :: "string \<Rightarrow> string \<Rightarrow> nat \<Rightarrow> nat list list \<Rightarrow> nat list list" where
  "initMatrix text1 text2 i matrix =
     (if i \<le> length text2
      then initMatrix text1 text2 (Suc i) (setRow matrix i (replicate (length text1 + 1) 0))
      else matrix)"
  by pat_completeness auto
termination
  by (relation "measure (\<lambda>(text1, text2, i, matrix). Suc (length text2) - i)") auto

text \<open>The value written to \<open>matrix[i][j]\<close> by the body of the inner loop.\<close>

definition cellValue :: "string \<Rightarrow> string \<Rightarrow> nat list list \<Rightarrow> nat \<Rightarrow> nat \<Rightarrow> nat" where
  "cellValue text1 text2 matrix i j =
     (if i = 0 then j
      else if j = 0 then i
      else
        (let indicator = (if text1 ! (j - 1) = text2 ! (i - 1) then 0 else 1)
         in min (matrix ! (i - 1) ! j + 1)
              (min (matrix ! i ! (j - 1) + 1)
                   (matrix ! (i - 1) ! (j - 1) + indicator))))"

text \<open>The inner loop over \<open>j = 0 .. text1.length\<close>, for a fixed row \<open>i\<close>.\<close>

function populateRow :: "string \<Rightarrow> string \<Rightarrow> nat \<Rightarrow> nat \<Rightarrow> nat list list \<Rightarrow> nat list list" where
  "populateRow text1 text2 i j matrix =
     (if j \<le> length text1
      then populateRow text1 text2 i (Suc j)
             (matrix[i := (matrix ! i)[j := cellValue text1 text2 matrix i j]])
      else matrix)"
  by pat_completeness auto
termination
  by (relation "measure (\<lambda>(text1, text2, i, j, matrix). Suc (length text1) - j)") auto

text \<open>The outer loop over \<open>i = 0 .. text2.length\<close>.\<close>

function populate :: "string \<Rightarrow> string \<Rightarrow> nat \<Rightarrow> nat list list \<Rightarrow> nat list list" where
  "populate text1 text2 i matrix =
     (if i \<le> length text2
      then populate text1 text2 (Suc i) (populateRow text1 text2 i 0 matrix)
      else matrix)"
  by pat_completeness auto
termination
  by (relation "measure (\<lambda>(text1, text2, i, matrix). Suc (length text2) - i)") auto

definition levenshteinDistance :: "string \<Rightarrow> string \<Rightarrow> nat" where
  "levenshteinDistance text1 text2 =
     (if length text1 = 0 then length text2
      else if length text2 = 0 then length text1
      else
        (let matrix = populate text1 text2 0 (initMatrix text1 text2 0 [])
         in matrix ! length text2 ! length text1))"

section \<open>Similarity of two lines\<close>

text \<open>
  \<open>1 - distance / Math.max(text1.length, text2.length)\<close>: the quotient is rounded, and
  so is the difference. The maximum is zero only when both strings are empty; then the
  distance is zero too, and \<open>0 / 0\<close> is \<open>NaN\<close>.
\<close>

definition semanticSimilarity :: "string \<Rightarrow> string \<Rightarrow> number" where
  "semanticSimilarity text1 text2 =
     (let distance = levenshteinDistance text1 text2;
          longest = max (length text1) (length text2)
      in if longest = 0 then NaN
         else Finite (roundDouble
                (1 - roundDouble (rat_of_nat distance / rat_of_nat longest))))"

section \<open>The host document\<close>

text \<open>
  Modelled from the spec: the editor's \<open>TextDocument\<close>, \<open>Position\<close> and \<open>Range\<close> are
  declarations of the host, not code of the sources. The spec lists what is consumed:
  the line count, the text of a line, the text of a range, and the conversions between
  offsets and positions. A document is its sequence of line texts, joined by a single
  newline character; the conversions clamp their argument to the document, and asking
  for a line that does not exist is an error.
\<close>

record position =
  line :: nat
  character :: nat

record vsRange =
  rangeStart :: position
  rangeEnd :: position

definition isBefore :: "position \<Rightarrow> position \<Rightarrow> bool" where
  "isBefore p q = (line p < line q \<or> (line p = line q \<and> character p < character q))"

text \<open>The constructor of a range orders its two ends.\<close>

definition mkRange :: "position \<Rightarrow> position \<Rightarrow> vsRange" where
  "mkRange a b =
     (if isBefore a b then \<lparr>rangeStart = a, rangeEnd = b\<rparr>
      else \<lparr>rangeStart = b, rangeEnd = a\<rparr>)"

record textDocument =
  docLines :: "string list"

datatype error = IllegalLine

definition lineCount :: "textDocument \<Rightarrow> nat" where
  "lineCount d = length (docLines d)"

text \<open>\<open>document.lineAt(n).text\<close>.\<close>

definition lineAt :: "textDocument \<Rightarrow> nat \<Rightarrow> error + string" where
  "lineAt d n = (if n < lineCount d then Inr (docLines d ! n) else Inl IllegalLine)"

definition getText :: "textDocument \<Rightarrow> string" where
  "getText d = joinNewline (docLines d)"

text \<open>The offset of a position: a line past the end is the end of the document, a
  character past the end of its line is the end of the line.\<close>

definition offsetAt :: "textDocument \<Rightarrow> position \<Rightarrow> nat" where
  "offsetAt d p =
     (let ls = docLines d
      in if line p < length ls
         then sum_list (map (\<lambda>l. length l + 1) (take (line p) ls))
              + min (character p) (length (ls ! line p))
         else length (getText d))"

fun positionAtFrom :: "string list \<Rightarrow> nat \<Rightarrow> nat \<Rightarrow> position" where
  "positionAtFrom [] n off = \<lparr>line = n, character = 0\<rparr>"
| "positionAtFrom [l] n off = \<lparr>line = n, character = min off (length l)\<rparr>"
| "positionAtFrom (l # ls) n off =
     (if off \<le> length l then \<lparr>line = n, character = off\<rparr>
      else positionAtFrom ls (Suc n) (off - length l - 1))"

text \<open>The position of an offset: a negative offset is the start of the document, an
  offset past the end is its end.\<close>

definition positionAt :: "textDocument \<Rightarrow> int \<Rightarrow> position" where
  "positionAt d off = positionAtFrom (docLines d) 0 (nat (max 0 off))"

definition getTextRange :: "textDocument \<Rightarrow> vsRange \<Rightarrow> string" where
  "getTextRange d r =
     (let s = offsetAt d (rangeStart r);
          e = offsetAt d (rangeEnd r)
      in take (e - s) (drop s (getText d)))"

section \<open>The sliding-window search\<close>

record semanticContext =
  semanticContext :: "string list"
  similarityScore :: number

text \<open>Evaluating the elements of an array one after the other: the first error ends
  the evaluation.\<close>

fun sequenceLines :: "(error + string) list \<Rightarrow> error + string list" where
  "sequenceLines [] = Inr []"
| "sequenceLines (r # rs) =
     (case r of
        Inl e \<Rightarrow> Inl e
      | Inr l \<Rightarrow> (case sequenceLines rs of Inl e \<Rightarrow> Inl e | Inr ls \<Rightarrow> Inr (l # ls)))"

text \<open>\<open>Array.from({ length: k }, (_, idx) => document.lineAt(i + idx).text)\<close>.\<close>

definition blockOfLines :: "textDocument \<Rightarrow> nat \<Rightarrow> nat \<Rightarrow> error + string list" where
  "blockOfLines d i k = sequenceLines (map (\<lambda>idx. lineAt d (i + idx)) [0..<k])"

text \<open>\<open>blockOfLines.reduce((acc, line) => acc + semanticSimilarity(currentLine, line), 0)\<close>.\<close>

definition aggregateSimilarityScore :: "string \<Rightarrow> string list \<Rightarrow> number" where
  "aggregateSimilarityScore currentLine block =
     foldl (\<lambda>acc l. addNumber acc (semanticSimilarity currentLine l)) (Finite 0) block"

text \<open>The loop over the start index \<open>i\<close>, with the loop's two variables
  \<open>mostSimilarContext\<close> and \<open>highestScore\<close>.\<close>

function searchLoop ::
  "textDocument \<Rightarrow> string \<Rightarrow> nat \<Rightarrow> nat \<Rightarrow> semanticContext \<Rightarrow> number \<Rightarrow> error + semanticContext" where
  "searchLoop d currentLine k i mostSimilarContext highestScore =
     (if int i \<le> int (lineCount d) - int k
      then
        (case blockOfLines d i k of
           Inl e \<Rightarrow> Inl e
         | Inr block \<Rightarrow>
             if gtNumber (aggregateSimilarityScore currentLine block) highestScore
             then searchLoop d currentLine k (Suc i)
                    \<lparr>semanticContext = block,
                     similarityScore = aggregateSimilarityScore currentLine block\<rparr>
                    (aggregateSimilarityScore currentLine block)
             else searchLoop d currentLine k (Suc i) mostSimilarContext highestScore)
      else Inr mostSimilarContext)"
  by pat_completeness auto
termination
  by (relation "measure (\<lambda>(d, currentLine, k, i, best, highest). Suc (lineCount d) - i)") auto

definition getSemanticContextWithinDocument ::
  "textDocument \<Rightarrow> position \<Rightarrow> nat \<Rightarrow> error + semanticContext" where
  "getSemanticContextWithinDocument d pos k =
     (case lineAt d (line pos) of
        Inl e \<Rightarrow> Inl e
      | Inr currentLine \<Rightarrow>
          searchLoop d currentLine k 0
            \<lparr>semanticContext = [], similarityScore = Finite 0\<rparr> (Finite 0))"

section \<open>The context window\<close>

text \<open>
  Some names of the source are taken by the logic or by another record: the fields
  \<open>range\<close> and \<open>text\<close> of the selected completion are \<open>completionRange\<close> and
  \<open>completionText\<close>, the field \<open>context\<close> of the parameters is
  \<open>completionContext\<close>, and the field \<open>semanticContext\<close> of the returned context,
  the newline-join of the block found by the search, is \<open>semanticContextText\<close>. The
  \<open>injectedPrefix\<close> and the \<open>multilineTrigger\<close> are \<open>None\<close> where the source has
  \<open>null\<close>.
\<close>

record selectedCompletionInfo =
  completionRange :: vsRange
  completionText :: string

record inlineCompletionContext =
  selectedCompletionInfo :: "selectedCompletionInfo option"

record getCurrentDocContextParams =
  document :: textDocument
  position :: position
  maxPrefixLength :: int
  maxSuffixLength :: int
  enableExtendedTriggers :: bool
  syntacticTriggers :: "bool option"
  completionContext :: "inlineCompletionContext option"

record documentContext =
  prefix :: string
  suffix :: string
  contextRange :: vsRange
  currentLinePrefix :: string
  currentLineSuffix :: string
  semanticContextText :: string
  prevNonEmptyLine :: string
  nextNonEmptyLine :: string
  injectedPrefix :: "string option"
  multilineTrigger :: "string option"

text \<open>
  The helpers \<open>getPrevNonEmptyLine\<close>, \<open>getNextNonEmptyLine\<close> and \<open>detectMultiline\<close> are
  imported from files that are not among the sources; the context window takes them as
  parameters. \<open>detectMultiline\<close> receives the context before its own field is set.
\<close>

record collaborators =
  getPrevNonEmptyLine :: "string \<Rightarrow> string"
  getNextNonEmptyLine :: "string \<Rightarrow> string"
  detectMultiline :: "documentContext \<Rightarrow> textDocument \<Rightarrow> bool \<Rightarrow> bool option \<Rightarrow> string option"

text \<open>\<open>context?.selectedCompletionInfo\<close>, and the two texts around the cursor.\<close>

definition selectedInfo :: "inlineCompletionContext option \<Rightarrow> selectedCompletionInfo option" where
  "selectedInfo ctx = (case ctx of None \<Rightarrow> None | Some c \<Rightarrow> selectedCompletionInfo c)"

definition completePrefix :: "textDocument \<Rightarrow> position \<Rightarrow> string" where
  "completePrefix d pos = getTextRange d (mkRange \<lparr>line = 0, character = 0\<rparr> pos)"

definition completeSuffix :: "textDocument \<Rightarrow> position \<Rightarrow> string" where
  "completeSuffix d pos =
     getTextRange d (mkRange pos (positionAt d (int (length (getText d)))))"

text \<open>The text before the cursor with the selected completion of the suggestion widget
  spliced in, and the \<open>injectedPrefix\<close>: what the splice adds after the original text,
  or \<open>null\<close> if that is empty.\<close>

definition completePrefixWithContextCompletion ::
  "textDocument \<Rightarrow> position \<Rightarrow> inlineCompletionContext option \<Rightarrow> string" where
  "completePrefixWithContextCompletion d pos ctx =
     (case selectedInfo ctx of
        None \<Rightarrow> completePrefix d pos
      | Some info \<Rightarrow>
          sliceTo (completePrefix d pos)
            (int (character (rangeStart (completionRange info))) - int (character pos))
          @ completionText info)"

definition injectedPrefixOf ::
  "textDocument \<Rightarrow> position \<Rightarrow> inlineCompletionContext option \<Rightarrow> string option" where
  "injectedPrefixOf d pos ctx =
     (case selectedInfo ctx of
        None \<Rightarrow> None
      | Some info \<Rightarrow>
          (let injected = sliceFrom (completePrefixWithContextCompletion d pos ctx)
                            (length (completePrefix d pos))
           in if injected = [] then None else Some injected))"

text \<open>
  The backward walk over the lines before the cursor, \<open>for (let i = prefixLines.length - 1;
  i >= 0; i--)\<close>. The counter of the model is \<open>i + 1\<close>, so the loop ends at zero; the
  result is \<open>startLine\<close>.
\<close>

fun prefixWalk :: "string list \<Rightarrow> int \<Rightarrow> nat \<Rightarrow> nat \<Rightarrow> nat \<Rightarrow> nat" where
  "prefixWalk prefixLines maxLen 0 total' startLine = startLine"
| "prefixWalk prefixLines maxLen (Suc i) total' startLine =
     (if int (total' + length (prefixLines ! i)) > maxLen then startLine
      else prefixWalk prefixLines maxLen i (total' + length (prefixLines ! i)) i)"

definition prefixOf :: "string list \<Rightarrow> nat \<Rightarrow> int \<Rightarrow> string" where
  "prefixOf prefixLines offset maxLen =
     (if int offset > maxLen
      then joinNewline
             (drop (prefixWalk prefixLines maxLen (length prefixLines) 0 (length prefixLines))
                prefixLines)
      else joinNewline prefixLines)"

text \<open>The forward walk over the lines after the cursor; the result is \<open>endLine\<close>.\<close>

function suffixWalk :: "string list \<Rightarrow> int \<Rightarrow> nat \<Rightarrow> nat \<Rightarrow> nat \<Rightarrow> nat" where
  "suffixWalk suffixLines maxLen i totalSuffix endLine =
     (if i < length suffixLines
      then
        (if int (totalSuffix + length (suffixLines ! i)) > maxLen then endLine
         else suffixWalk suffixLines maxLen (Suc i)
                (totalSuffix + length (suffixLines ! i)) (Suc i))
      else endLine)"
  by pat_completeness auto
termination
  by (relation "measure (\<lambda>(suffixLines, maxLen, i, totalSuffix, endLine). length suffixLines - i)") auto

definition suffixOf :: "string list \<Rightarrow> int \<Rightarrow> string" where
  "suffixOf suffixLines maxLen =
     joinNewline (take (suffixWalk suffixLines maxLen 0 0 0) suffixLines)"

text \<open>The three values every later step reads: \<open>offset\<close>, \<open>prefixLines\<close> and
  \<open>suffixLines\<close>.\<close>

definition cursorOffset :: "getCurrentDocContextParams \<Rightarrow> nat" where
  "cursorOffset params = offsetAt (document params) (position params)"

definition prefixLines :: "getCurrentDocContextParams \<Rightarrow> string list" where
  "prefixLines params =
     lines (completePrefixWithContextCompletion (document params) (position params)
              (completionContext params))"

definition suffixLines :: "getCurrentDocContextParams \<Rightarrow> string list" where
  "suffixLines params = lines (completeSuffix (document params) (position params))"

text \<open>The only step that can fail is the search, which reads the line of the cursor;
  \<open>prefixLines.at(-1)\<close> and \<open>suffixLines[0]\<close> exist because \<open>lines\<close> never returns
  an empty sequence.\<close>

definition getCurrentDocContext ::
  "collaborators \<Rightarrow> getCurrentDocContextParams \<Rightarrow> error + documentContext" where
  "getCurrentDocContext env params =
     (let d = document params;
          pos = position params;
          offset = cursorOffset params;
          prefix' = prefixOf (prefixLines params) offset (maxPrefixLength params)
      in case getSemanticContextWithinDocument d pos 5 of
           Inl e \<Rightarrow> Inl e
         | Inr semanticContextWithinDoc \<Rightarrow>
             (let suffix' = suffixOf (suffixLines params) (maxSuffixLength params);
                  docContext =
                    \<lparr>prefix = prefix',
                     suffix = suffix',
                     contextRange =
                       mkRange (positionAt d (int offset - int (length prefix')))
                         (positionAt d (int offset + int (length suffix'))),
                     currentLinePrefix = last (prefixLines params),
                     currentLineSuffix = hd (suffixLines params),
                     semanticContextText =
                       joinNewline (semanticContext semanticContextWithinDoc),
                     prevNonEmptyLine = getPrevNonEmptyLine env prefix',
                     nextNonEmptyLine = getNextNonEmptyLine env suffix',
                     injectedPrefix = injectedPrefixOf d pos (completionContext params),
                     multilineTrigger = None\<rparr>
              in Inr (docContext
                   \<lparr>multilineTrigger :=
                      detectMultiline env docContext d (enableExtendedTriggers params)
                        (syntacticTriggers params)\<rparr>)))"

section \<open>Kept lines, as the specification words them\<close>

text \<open>
  The backward walk keeps the tail of the line sequence that starts at \<open>s\<close>: every
  tail starting at or after \<open>s\<close> has a total of raw line lengths within the cap, and
  taking one more line would exceed it.
\<close>

definition keptBackward :: "string list \<Rightarrow> int \<Rightarrow> nat \<Rightarrow> bool" where
  "keptBackward ls maxLen s \<longleftrightarrow>
     s \<le> length ls
     \<and> (\<forall>t \<in> {s..<length ls}. int (sum_list (map length (drop t ls))) \<le> maxLen)
     \<and> (0 < s \<longrightarrow> int (sum_list (map length (drop (s - 1) ls))) > maxLen)"

text \<open>
  The forward walk keeps the first \<open>n\<close> lines: every initial segment of at most
  \<open>n\<close> lines has a total of raw line lengths within the cap, and taking one more line
  would exceed it.
\<close>

definition keptForward :: "string list \<Rightarrow> int \<Rightarrow> nat \<Rightarrow> bool" where
  "keptForward ls maxLen n \<longleftrightarrow>
     n \<le> length ls
     \<and> (\<forall>m \<in> {0..<n}. int (sum_list (map length (take (Suc m) ls))) \<le> maxLen)
     \<and> (n < length ls \<longrightarrow> int (sum_list (map length (take (Suc n) ls))) > maxLen)"

section \<open>Candidate blocks and their scores\<close>

text \<open>
  The candidate block at start index \<open>i\<close> is the sequence of the \<open>k\<close> lines
  \<open>i, ..., i + k - 1\<close> of the document; \<open>i\<close> is a candidate when the block lies
  within the document.
\<close>

definition candidateBlock :: "textDocument \<Rightarrow> nat \<Rightarrow> nat \<Rightarrow> string list" where
  "candidateBlock d i k = take k (drop i (docLines d))"

definition isCandidate :: "textDocument \<Rightarrow> nat \<Rightarrow> nat \<Rightarrow> bool" where
  "isCandidate d k i \<longleftrightarrow> i + k \<le> lineCount d"

text \<open>The sum of a sequence of numbers, added to \<open>acc\<close> one after the other from the
  left. The score of a block is the sum, from 0, of the similarities of the current line to
  the lines of the block.\<close>

fun sumFrom :: "number \<Rightarrow> number list \<Rightarrow> number" where
  "sumFrom acc [] = acc"
| "sumFrom acc (x # xs) = sumFrom (addNumber acc x) xs"

definition blockScore :: "textDocument \<Rightarrow> string \<Rightarrow> nat \<Rightarrow> nat \<Rightarrow> number" where
  "blockScore d currentLine k i =
     sumFrom (Finite 0) (map (semanticSimilarity currentLine) (candidateBlock d i k))"

text \<open>
  The state of the search after the start indices below \<open>n\<close>: the best block so far
  has a finite score that no earlier block exceeds, and it is either the initial empty block
  (no earlier block exceeds 0) or the first earlier block that achieves its score.
\<close>

definition searchInv :: "textDocument \<Rightarrow> string \<Rightarrow> nat \<Rightarrow> nat \<Rightarrow> semanticContext \<Rightarrow> bool" where
  "searchInv d cur k n best \<longleftrightarrow>
     (\<exists>h. similarityScore best = Finite h)
     \<and> (\<forall>j<n. \<not> gtNumber (blockScore d cur k j) (similarityScore best))
     \<and> ((best = \<lparr>semanticContext = [], similarityScore = Finite 0\<rparr>
          \<and> (\<forall>j<n. \<not> gtNumber (blockScore d cur k j) (Finite 0)))
        \<or> (\<exists>i0<n. best = \<lparr>semanticContext = candidateBlock d i0 k,
                              similarityScore = blockScore d cur k i0\<rparr>
              \<and> gtNumber (blockScore d cur k i0) (Finite 0)
              \<and> (\<forall>j<i0. blockScore d cur k j \<noteq> blockScore d cur k i0)))"

section \<open>Offsets within a sequence of lines\<close>

text \<open>The offset of character \<open>c\<close> of line \<open>m\<close> in the join of the lines, clamped as
  \<open>offsetAt\<close> clamps it; \<open>offsetAt\<close> is this function on the lines of the document.\<close>

definition offsetIn :: "string list \<Rightarrow> nat \<Rightarrow> nat \<Rightarrow> nat" where
  "offsetIn ls m c =
     (if m < length ls
      then sum_list (map (\<lambda>l. length l + 1) (take m ls)) + min c (length (ls ! m))
      else length (joinNewline ls))"

section \<open>Edit scripts, as the specification words the distance\<close>

text \<open>
  A single-character edit: the insertion of a character before position \<open>i\<close> (or at the
  end), the deletion of the character at position \<open>i\<close>, or the substitution of the
  character at position \<open>i\<close>. An edit whose position lies outside the string does not
  apply. A sequence of edits transforms a string into another when applying them one after
  the other does.
\<close>

datatype edit = Insert nat char | Delete nat | Substitute nat char

fun applyEdit :: "edit \<Rightarrow> string \<Rightarrow> string option" where
  "applyEdit (Insert i c) s = (if i \<le> length s then Some (take i s @ c # drop i s) else None)"
| "applyEdit (Delete i) s = (if i < length s then Some (take i s @ drop (Suc i) s) else None)"
| "applyEdit (Substitute i c) s = (if i < length s then Some (s[i := c]) else None)"

fun applyEdits :: "edit list \<Rightarrow> string \<Rightarrow> string option" where
  "applyEdits [] s = Some s"
| "applyEdits (e # es) s = (case applyEdit e s of None \<Rightarrow> None | Some s' \<Rightarrow> applyEdits es s')"

text \<open>The recurrence of the edit distance on the first characters of the two strings; the
  matrix of \<open>levenshteinDistance\<close> holds it for the reversed prefixes.\<close>

fun lev :: "string \<Rightarrow> string \<Rightarrow> nat" where
  "lev [] ys = length ys"
| "lev xs [] = length xs"
| "lev (x # xs) (y # ys) =
     min (lev xs (y # ys) + 1)
       (min (lev (x # xs) ys + 1) (lev xs ys + (if x = y then 0 else 1)))"

text \<open>An edit moved one position to the right, and an edit mirrored for the reversed
  string of length \<open>n\<close>.\<close>

fun shiftEdit :: "edit \<Rightarrow> edit" where
  "shiftEdit (Insert i c) = Insert (Suc i) c"
| "shiftEdit (Delete i) = Delete (Suc i)"
| "shiftEdit (Substitute i c) = Substitute (Suc i) c"

fun mirrorEdit :: "nat \<Rightarrow> edit \<Rightarrow> edit" where
  "mirrorEdit n (Insert i c) = Insert (n - i) c"
| "mirrorEdit n (Delete i) = Delete (n - 1 - i)"
| "mirrorEdit n (Substitute i c) = Substitute (n - 1 - i) c"

text \<open>The value the cell \<open>matrix[i][j]\<close> must hold, and the state of the matrix when
  the rows before \<open>i\<close> and the cells of row \<open>i\<close> before column \<open>j\<close> hold it.\<close>

definition levCell :: "string \<Rightarrow> string \<Rightarrow> nat \<Rightarrow> nat \<Rightarrow> nat" where
  "levCell text1 text2 i j = lev (rev (take j text1)) (rev (take i text2))"

definition filled :: "string \<Rightarrow> string \<Rightarrow> nat list list \<Rightarrow> nat \<Rightarrow> nat \<Rightarrow> bool" where
  "filled text1 text2 matrix i j \<longleftrightarrow>
     length matrix = Suc (length text2)
     \<and> (\<forall>r \<le> length text2. length (matrix ! r) = Suc (length text1))
     \<and> (\<forall>r \<le> length text2. \<forall>c \<le> length text1.
          r < i \<or> (r = i \<and> c < j) \<longrightarrow> matrix ! r ! c = levCell text1 text2 r c)"

section \<open>Example inputs\<close>

definition exampleEnv :: collaborators where
  "exampleEnv = \<lparr>getPrevNonEmptyLine = (\<lambda>s. []), getNextNonEmptyLine = (\<lambda>s. []),
     detectMultiline = (\<lambda>c d e s. None)\<rparr>"

definition exampleDocument :: textDocument where
  "exampleDocument = \<lparr>docLines = [''abc'', ''de'', ''fgh'', ''i'', ''jkl'']\<rparr>"

definition exampleParams :: getCurrentDocContextParams where
  "exampleParams = \<lparr>document = exampleDocument, position = \<lparr>line = 2, character = 1\<rparr>,
     maxPrefixLength = 4, maxSuffixLength = 3, enableExtendedTriggers = False,
     syntacticTriggers = None, completionContext = None\<rparr>"

definition exampleResult :: documentContext where
  "exampleResult = \<lparr>prefix = ''de\<newline>f'', suffix = ''gh\<newline>i'',
        contextRange =
          \<lparr>rangeStart = \<lparr>line = 1, character = 0\<rparr>,
             rangeEnd = \<lparr>line = 3, character = 1\<rparr>\<rparr>,
        currentLinePrefix = ''f'', currentLineSuffix = ''gh'',
        semanticContextText = ''abc\<newline>de\<newline>fgh\<newline>i\<newline>jkl'', prevNonEmptyLine = [],
        nextNonEmptyLine = [], injectedPrefix = None,
        multilineTrigger = None\<rparr>"

text \<open>The result for the same input with \<open>maxSuffixLength = 1\<close>.\<close>

definition shortSuffixResult :: documentContext where
  "shortSuffixResult = exampleResult
     \<lparr>suffix := [],
      contextRange := \<lparr>rangeStart = \<lparr>line = 1, character = 0\<rparr>,
                        rangeEnd = \<lparr>line = 2, character = 1\<rparr>\<rparr>\<rparr>"

text \<open>A one-line document with the cursor after \<open>ab\<close>, while the suggestion widget
  offers \<open>abcdef\<close> for the range of \<open>ab\<close>.\<close>

definition widgetDocument :: textDocument where
  "widgetDocument = \<lparr>docLines = [''ab'']\<rparr>"

definition widgetContext :: "inlineCompletionContext option" where
  "widgetContext = Some \<lparr>selectedCompletionInfo = Some
     \<lparr>completionRange = mkRange \<lparr>line = 0, character = 0\<rparr> \<lparr>line = 0, character = 2\<rparr>,
      completionText = ''abcdef''\<rparr>\<rparr>"

definition widgetParams :: "int \<Rightarrow> getCurrentDocContextParams" where
  "widgetParams maxLen = \<lparr>document = widgetDocument, position = \<lparr>line = 0, character = 2\<rparr>,
     maxPrefixLength = maxLen, maxSuffixLength = 100, enableExtendedTriggers = False,
     syntacticTriggers = None, completionContext = widgetContext\<rparr>"

definition widgetResult :: "string \<Rightarrow> nat \<Rightarrow> documentContext" where
  "widgetResult p c = \<lparr>prefix = p, suffix = [],
        contextRange =
          \<lparr>rangeStart = \<lparr>line = 0, character = c\<rparr>,
             rangeEnd = \<lparr>line = 0, character = 2\<rparr>\<rparr>,
        currentLinePrefix = ''abcdef'', currentLineSuffix = [],
        semanticContextText = [], prevNonEmptyLine = [],
        nextNonEmptyLine = [], injectedPrefix = Some ''cdef'',
        multilineTrigger = None\<rparr>"

text \<open>A selected completion that replaces the \<open>f\<close> before the cursor by itself.\<close>

definition sameTextContext :: "inlineCompletionContext option" where
  "sameTextContext = Some \<lparr>selectedCompletionInfo = Some
     \<lparr>completionRange = mkRange \<lparr>line = 2, character = 0\<rparr> \<lparr>line = 2, character = 1\<rparr>,
      completionText = ''f''\<rparr>\<rparr>"

text \<open>The document of the specification's example, and a document whose first line is blank.\<close>

definition specDocument :: textDocument where
  "specDocument = \<lparr>docLines = [''foo'', ''bar'', '''', ''foo'', ''qux'']\<rparr>"

definition blankLineDocument :: textDocument where
  "blankLineDocument = \<lparr>docLines = ['''', ''b'', ''b'', ''b'', ''b'', ''b'', ''b'']\<rparr>"

text \<open>Two documents with two candidate blocks of the same lines in different order (for
  \<open>k = 5\<close> and for \<open>k = 3\<close>): the exact sums of the similarities are equal, the
  rounded sums are not.\<close>

definition nearTieDocument :: textDocument where
  "nearTieDocument = \<lparr>docLines = [''a'', ''aaaaaa'', ''aaaaa'', ''aaaa'', ''aaaaa'', ''a'']\<rparr>"

definition smallNearTieDocument :: textDocument where
  "smallNearTieDocument = \<lparr>docLines = [''a'', ''a'', ''aaa'', ''a'']\<rparr>"

text \<open>The empty document (one empty line), and the cursor at the start of a document.\<close>

definition emptyDocument :: textDocument where
  "emptyDocument = \<lparr>docLines = ['''']\<rparr>"

definition originParams :: "textDocument \<Rightarrow> getCurrentDocContextParams" where
  "originParams d = \<lparr>document = d, position = \<lparr>line = 0, character = 0\<rparr>,
     maxPrefixLength = 100, maxSuffixLength = 100, enableExtendedTriggers = False,
     syntacticTriggers = None, completionContext = None\<rparr>"

definition emptyResult :: documentContext where
  "emptyResult = \<lparr>prefix = [], suffix = [],
        contextRange =
          \<lparr>rangeStart = \<lparr>line = 0, character = 0\<rparr>,
             rangeEnd = \<lparr>line = 0, character = 0\<rparr>\<rparr>,
        currentLinePrefix = [], currentLineSuffix = [],
        semanticContextText = [], prevNonEmptyLine = [],
        nextNonEmptyLine = [], injectedPrefix = None,
        multilineTrigger = None\<rparr>"

text \<open>The result for the cursor at the start of the five-line example document.\<close>

definition startResult :: documentContext where
  "startResult = \<lparr>prefix = [], suffix = ''abc\<newline>de\<newline>fgh\<newline>i\<newline>jkl'',
        contextRange =
          \<lparr>rangeStart = \<lparr>line = 0, character = 0\<rparr>,
             rangeEnd = \<lparr>line = 4, character = 3\<rparr>\<rparr>,
        currentLinePrefix = [], currentLineSuffix = ''abc'',
        semanticContextText = ''abc\<newline>de\<newline>fgh\<newline>i\<newline>jkl'', prevNonEmptyLine = [],
        nextNonEmptyLine = [], injectedPrefix = None,
        multilineTrigger = None\<rparr>"

text \<open>Three edits that turn \<open>kitten\<close> into \<open>sitting\<close>.\<close>

definition kittenEdits :: "edit list" where
  "kittenEdits = [Substitute 0 CHR ''s'', Substitute 4 CHR ''i'', Insert 6 CHR ''g'']"

section \<open>Rounding to binary64\<close>

declare floorLog2.simps [simp del]

lemma floorLog2_bounds: "0 < n \<Longrightarrow> 2 ^ floorLog2 n \<le> n \<and> n < 2 ^ Suc (floorLog2 n)"
proof (induction n rule: floorLog2.induct)
  case (1 n)
  show ?case
  proof (cases "n < 2")
    case True
    then have "n = 1" using "1.prems" by simp
    then show ?thesis by (simp add: floorLog2.simps)
  next
    case False
    then have "0 < n div 2" by simp
    then have IH: "2 ^ floorLog2 (n div 2) \<le> n div 2" "n div 2 < 2 ^ Suc (floorLog2 (n div 2))"
      using "1.IH" [OF False] by simp_all
    have f: "floorLog2 n = Suc (floorLog2 (n div 2))"
      using False by (subst floorLog2.simps) simp
    have "2 * 2 ^ floorLog2 (n div 2) \<le> 2 * (n div 2)" using IH(1) by simp
    also have "\<dots> \<le> n" by simp
    finally have lo: "2 ^ floorLog2 n \<le> n" unfolding f by simp
    have "n < 2 * (n div 2) + 2" by presburger
    also have "\<dots> \<le> 2 * 2 ^ Suc (floorLog2 (n div 2))" using IH(2) by simp
    finally have hi: "n < 2 ^ Suc (floorLog2 n)" unfolding f by simp
    show ?thesis using lo hi by simp
  qed
qed

lemma ceilLog2_bounds:
  "1 < n \<Longrightarrow> 2 ^ (ceilLog2 n - 1) < n \<and> n \<le> 2 ^ ceilLog2 n"
proof -
  assume n: "1 < n"
  then have "0 < n - 1" by simp
  from floorLog2_bounds [OF this]
  have "2 ^ floorLog2 (n - 1) \<le> n - 1" "n - 1 < 2 ^ Suc (floorLog2 (n - 1))" by simp_all
  then show ?thesis using n by (auto simp: ceilLog2_def)
qed

lemma pow2_pos: "0 < pow2 e"
  by (simp add: pow2_def)

lemma pow2_Suc_nat: "pow2 (int n + 1) = 2 * pow2 (int n)"
  by (simp add: pow2_def nat_add_distrib)

text \<open>The binary exponent of a positive rational is the one that brackets it.\<close>

lemma binaryExponent_bounds:
  assumes "0 < a"
  shows "pow2 (binaryExponent a) \<le> a \<and> a < pow2 (binaryExponent a + 1)"
proof (cases "1 \<le> a")
  case True
  let ?n = "nat \<lfloor>a\<rfloor>"
  have n: "0 < ?n" using True by simp
  have e: "binaryExponent a = int (floorLog2 ?n)" using True by (simp add: binaryExponent_def)
  have "0 \<le> \<lfloor>a\<rfloor>" using True by simp
  then have "rat_of_nat ?n = rat_of_int \<lfloor>a\<rfloor>" by simp
  then have fl: "rat_of_nat ?n \<le> a" "a < rat_of_nat ?n + 1"
    using floor_correct [of a] by simp_all
  have b: "2 ^ floorLog2 ?n \<le> ?n" "?n < 2 ^ Suc (floorLog2 ?n)"
    using floorLog2_bounds [OF n] by simp_all
  have "pow2 (int (floorLog2 ?n)) = rat_of_nat (2 ^ floorLog2 ?n)" by (simp add: pow2_def)
  also have "\<dots> \<le> rat_of_nat ?n" using b(1) of_nat_le_iff by blast
  also have "\<dots> \<le> a" by (rule fl(1))
  finally have lo: "pow2 (binaryExponent a) \<le> a" unfolding e .
  have "Suc ?n \<le> 2 ^ Suc (floorLog2 ?n)" using b(2) by simp
  then have "rat_of_nat (Suc ?n) \<le> rat_of_nat (2 ^ Suc (floorLog2 ?n))"
    using of_nat_le_iff by blast
  then have "rat_of_nat ?n + 1 \<le> 2 * pow2 (int (floorLog2 ?n))"
    by (simp add: pow2_def)
  then have hi: "a < pow2 (binaryExponent a + 1)"
    unfolding e pow2_Suc_nat using fl(2) by simp
  show ?thesis using lo hi by simp
next
  case False
  let ?b = "1 / a"
  let ?m = "nat \<lceil>?b\<rceil>"
  have b1: "1 < ?b" using assms False by simp
  then have "1 < \<lceil>?b\<rceil>" by linarith
  then have m: "1 < ?m" by simp
  have e: "binaryExponent a = - int (ceilLog2 ?m)" using False by (simp add: binaryExponent_def)
  have c: "2 ^ (ceilLog2 ?m - 1) < ?m" "?m \<le> 2 ^ ceilLog2 ?m"
    using ceilLog2_bounds [OF m] by simp_all
  have cpos: "0 < ceilLog2 ?m"
  proof -
    have "\<not> ?m \<le> 1" using m by linarith
    then have "ceilLog2 ?m = Suc (floorLog2 (?m - 1))"
      unfolding ceilLog2_def by (rule if_not_P)
    then show ?thesis by (simp only: zero_less_Suc)
  qed
  have "0 \<le> \<lceil>?b\<rceil>" using b1 by linarith
  then have "rat_of_nat ?m = rat_of_int \<lceil>?b\<rceil>" by simp
  then have ce: "?b \<le> rat_of_nat ?m" "rat_of_nat ?m < ?b + 1"
    using ceiling_correct [of ?b] by simp_all
  have "?b \<le> rat_of_nat (2 ^ ceilLog2 ?m)"
    using ce(1) c(2) by (meson of_nat_le_iff order_trans)
  then have "1 / a \<le> 2 ^ ceilLog2 ?m" by simp
  then have "1 \<le> 2 ^ ceilLog2 ?m * a" using assms by (simp add: field_simps)
  then have lo: "pow2 (binaryExponent a) \<le> a"
    unfolding e using cpos by (simp add: pow2_def field_simps)
  have "Suc (2 ^ (ceilLog2 ?m - 1)) \<le> ?m" using c(1) by (rule Suc_leI)
  then have "rat_of_nat (Suc (2 ^ (ceilLog2 ?m - 1))) \<le> rat_of_nat ?m"
    using of_nat_le_iff by blast
  then have "2 ^ (ceilLog2 ?m - 1) + 1 < ?b + 1" using ce(2) by simp
  then have "(2::rat) ^ (ceilLog2 ?m - 1) < 1 / a" by simp
  then have lt: "2 ^ (ceilLog2 ?m - 1) * a < 1" using assms by (simp add: field_simps)
  have pw: "pow2 (binaryExponent a + 1) = 1 / 2 ^ (ceilLog2 ?m - 1)"
  proof -
    obtain k where k: "ceilLog2 ?m = Suc k" using cpos by (cases "ceilLog2 ?m") auto
    show ?thesis unfolding e k by (simp add: pow2_def)
  qed
  have "a < 1 / 2 ^ (ceilLog2 ?m - 1)"
    using lt by (simp add: pos_less_divide_eq mult.commute)
  then have hi: "a < pow2 (binaryExponent a + 1)"
    unfolding pw .
  show ?thesis using lo hi by simp
qed

text \<open>Rounding to an integer leaves integers alone and moves by at most one half.\<close>

lemma roundHalfEven_of_int: "roundHalfEven (rat_of_int n) = n"
  by (simp add: roundHalfEven_def)

lemma roundHalfEven_near: "\<bar>rat_of_int (roundHalfEven q) - q\<bar> \<le> 1 / 2"
proof -
  define n where "n = \<lfloor>q\<rfloor>"
  define r where "r = q - rat_of_int n"
  have r: "0 \<le> r" "r < 1"
    using floor_correct [of q] by (simp_all add: r_def n_def)
  have q: "q = rat_of_int n + r" by (simp add: r_def)
  have cases: "roundHalfEven q = n \<and> r \<le> 1 / 2 \<or> roundHalfEven q = n + 1 \<and> 1 / 2 \<le> r"
    unfolding roundHalfEven_def Let_def n_def [symmetric] r_def [symmetric]
    by (cases "r < 1 / 2"; cases "1 / 2 < r"; cases "even n") simp_all
  then show ?thesis
  proof
    assume "roundHalfEven q = n \<and> r \<le> 1 / 2"
    then show ?thesis using r unfolding q by simp
  next
    assume "roundHalfEven q = n + 1 \<and> 1 / 2 \<le> r"
    then show ?thesis using r unfolding q by simp
  qed
qed

text \<open>Some doubles: \<open>0.8\<close>, \<open>1 - 0.8\<close>, \<open>0.1 + 0.2\<close>, and the integers 1 and 3.\<close>

lemma roundDouble_examples:
  "roundDouble (4 / 5) = 3602879701896397 / 4503599627370496"
  "roundDouble (1 - roundDouble (4 / 5)) = 900719925474099 / 4503599627370496"
  "roundDouble (roundDouble (1 / 10) + roundDouble (2 / 10)) = 1351079888211149 / 4503599627370496"
  "roundDouble 1 = 1"
  "roundDouble 3 = 3"
  by code_simp+

section \<open>Lines, joins and the two walks\<close>

declare suffixWalk.simps [simp del] searchLoop.simps [simp del] initMatrix.simps [simp del]
  populateRow.simps [simp del] populate.simps [simp del]

lemma lines_not_Nil: "lines s \<noteq> []"
  by (induction s) (auto split: list.splits)

lemma joinNewline_Cons: "ls \<noteq> [] \<Longrightarrow> joinNewline (l # ls) = l @ CHR 0x0A # joinNewline ls"
  by (cases ls) auto

lemma joinNewline_lines: "joinNewline (lines s) = s"
proof (induction s)
  case Nil
  show ?case by simp
next
  case (Cons c cs)
  show ?case
  proof (cases "c = CHR 0x0A")
    case True
    then show ?thesis using Cons lines_not_Nil [of cs] by (simp add: joinNewline_Cons)
  next
    case False
    obtain l ls where l: "lines cs = l # ls" using lines_not_Nil [of cs] by (cases "lines cs") auto
    then show ?thesis using Cons False by (cases ls) auto
  qed
qed

lemma prefixWalk_kept:
  "n \<le> length ls \<Longrightarrow> tot = sum_list (map length (drop n ls)) \<Longrightarrow>
   (\<forall>t \<in> {n..<length ls}. int (sum_list (map length (drop t ls))) \<le> mx) \<Longrightarrow>
   keptBackward ls mx (prefixWalk ls mx n tot n)"
proof (induction n arbitrary: tot)
  case 0
  then show ?case by (simp add: keptBackward_def)
next
  case (Suc i)
  have d: "drop i ls = ls ! i # drop (Suc i) ls"
    using Suc.prems(1) by (simp add: Cons_nth_drop_Suc)
  show ?case
  proof (cases "int (tot + length (ls ! i)) > mx")
    case True
    then show ?thesis using Suc.prems d by (simp add: keptBackward_def)
  next
    case False
    have "keptBackward ls mx (prefixWalk ls mx i (tot + length (ls ! i)) i)"
    proof (rule Suc.IH)
      show "i \<le> length ls" using Suc.prems(1) by simp
      show "tot + length (ls ! i) = sum_list (map length (drop i ls))"
        using Suc.prems(2) d by simp
      show "\<forall>t \<in> {i..<length ls}. int (sum_list (map length (drop t ls))) \<le> mx"
      proof
        fix t assume t: "t \<in> {i..<length ls}"
        show "int (sum_list (map length (drop t ls))) \<le> mx"
        proof (cases "t = i")
          case True
          then show ?thesis using False Suc.prems(2) d by simp
        next
          case False
          then have "t \<in> {Suc i..<length ls}" using t by auto
          then show ?thesis using Suc.prems(3) by blast
        qed
      qed
    qed
    then show ?thesis using False by simp
  qed
qed

lemma suffixWalk_kept:
  "i \<le> length ls \<Longrightarrow> tot = sum_list (map length (take i ls)) \<Longrightarrow> e = i \<Longrightarrow>
   (\<forall>m \<in> {0..<i}. int (sum_list (map length (take (Suc m) ls))) \<le> mx) \<Longrightarrow>
   keptForward ls mx (suffixWalk ls mx i tot e)"
proof (induction ls mx i tot e rule: suffixWalk.induct)
  case (1 ls mx i tot e)
  show ?case
  proof (cases "i < length ls")
    case False
    then have "suffixWalk ls mx i tot e = i" using "1.prems" by (simp add: suffixWalk.simps)
    then show ?thesis using False "1.prems" by (simp add: keptForward_def)
  next
    case True
    have t: "take (Suc i) ls = take i ls @ [ls ! i]"
      using True by (simp add: take_Suc_conv_app_nth)
    show ?thesis
    proof (cases "int (tot + length (ls ! i)) > mx")
      case over: True
      then have "suffixWalk ls mx i tot e = i"
        using True "1.prems" by (simp add: suffixWalk.simps)
      then show ?thesis using True over "1.prems" t by (simp add: keptForward_def)
    next
      case fits: False
      have "keptForward ls mx (suffixWalk ls mx (Suc i) (tot + length (ls ! i)) (Suc i))"
      proof (rule "1.IH" [OF True fits])
        show "Suc i \<le> length ls" using True by simp
        show "tot + length (ls ! i) = sum_list (map length (take (Suc i) ls))"
          using "1.prems"(2) t by simp
        show "Suc i = Suc i" by simp
        show "\<forall>m \<in> {0..<Suc i}. int (sum_list (map length (take (Suc m) ls))) \<le> mx"
        proof
          fix m assume m: "m \<in> {0..<Suc i}"
          show "int (sum_list (map length (take (Suc m) ls))) \<le> mx"
          proof (cases "m = i")
            case True
            then show ?thesis using fits "1.prems"(2) t by simp
          next
            case False
            then have "m \<in> {0..<i}" using m by auto
            then show ?thesis using "1.prems"(4) by blast
          qed
        qed
      qed
      then show ?thesis using True fits by (subst suffixWalk.simps) simp
    qed
  qed
qed

lemma getCurrentDocContext_fields:
  assumes "getCurrentDocContext env params = Inr r"
  shows "prefix r = prefixOf (prefixLines params) (cursorOffset params) (maxPrefixLength params)"
    and "suffix r = suffixOf (suffixLines params) (maxSuffixLength params)"
    and "injectedPrefix r = injectedPrefixOf (document params) (position params)
           (completionContext params)"
    and "contextRange r =
           mkRange (positionAt (document params)
                      (int (cursorOffset params) - int (length (prefix r))))
                   (positionAt (document params)
                      (int (cursorOffset params) + int (length (suffix r))))"
    and "\<exists>sem. getSemanticContextWithinDocument (document params) (position params) 5 = Inr sem
           \<and> semanticContextText r = joinNewline (semanticContext sem)"
  using assms by (auto simp: getCurrentDocContext_def Let_def split: sum.splits)

section \<open>The recurrence of the edit distance and edit scripts\<close>

lemma lev_Nil2 [simp]: "lev xs [] = length xs"
  by (cases xs) auto

lemma lev_refl: "lev xs xs = 0"
  by (induction xs) auto

lemma lev_insert_target: "lev xs (y # ys) \<le> 1 + lev xs ys"
  by (cases xs) auto

lemma lev_delete_source: "lev (x # xs) ys \<le> 1 + lev xs ys"
  by (cases ys) auto

lemma lev_drop_head: "lev xs ys \<le> 1 + lev (x # xs) ys"
proof (induction ys)
  case Nil
  show ?case by simp
next
  case (Cons y ys)
  have a: "lev xs (y # ys) \<le> 1 + lev xs ys" by (rule lev_insert_target)
  show ?case using a Cons.IH by (auto simp: min_def)
qed

lemma lev_change_head: "lev (x # xs) ys \<le> 1 + lev (x' # xs) ys"
proof (induction ys)
  case Nil
  show ?case by simp
next
  case (Cons y ys)
  show ?case using Cons.IH by (auto simp: min_def)
qed

lemma lev_context:
  assumes "\<And>zs. lev xs zs \<le> 1 + lev xs' zs"
  shows "lev (x # xs) ys \<le> 1 + lev (x # xs') ys"
proof (induction ys)
  case Nil
  show ?case using assms [of "[]"] by simp
next
  case (Cons y ys)
  show ?case using Cons.IH assms [of "y # ys"] assms [of ys] by (auto simp: min_def)
qed

lemma applyEdit_step:
  "applyEdit e s = Some s' \<Longrightarrow> lev s b \<le> 1 + lev s' b"
proof (induction e s arbitrary: s' b rule: applyEdit.induct)
  case (1 i c s)
  then show ?case
  proof (induction i arbitrary: s s' b)
    case 0
    then show ?case using lev_drop_head by auto
  next
    case (Suc i)
    then obtain x t where s: "s = x # t" by (cases s) auto
    then have "applyEdit (Insert i c) t = Some (take i t @ c # drop i t)"
      using Suc.prems by (auto split: if_splits)
    then have "\<And>zs. lev t zs \<le> 1 + lev (take i t @ c # drop i t) zs"
      using Suc.IH by blast
    then have "lev (x # t) b \<le> 1 + lev (x # (take i t @ c # drop i t)) b"
      by (rule lev_context)
    then show ?case using Suc.prems s by (auto split: if_splits)
  qed
next
  case (2 i s)
  then show ?case
  proof (induction i arbitrary: s s' b)
    case 0
    then obtain x t where s: "s = x # t" by (cases s) auto
    then show ?case using 0 lev_delete_source by auto
  next
    case (Suc i)
    then obtain x t where s: "s = x # t" by (cases s) auto
    then have "applyEdit (Delete i) t = Some (take i t @ drop (Suc i) t)"
      using Suc.prems by (auto split: if_splits)
    then have "\<And>zs. lev t zs \<le> 1 + lev (take i t @ drop (Suc i) t) zs"
      using Suc.IH by blast
    then have "lev (x # t) b \<le> 1 + lev (x # (take i t @ drop (Suc i) t)) b"
      by (rule lev_context)
    then show ?case using Suc.prems s by (auto split: if_splits)
  qed
next
  case (3 i c s)
  then show ?case
  proof (induction i arbitrary: s s' b)
    case 0
    then obtain x t where s: "s = x # t" by (cases s) auto
    then show ?case using 0 lev_change_head by auto
  next
    case (Suc i)
    then obtain x t where s: "s = x # t" by (cases s) auto
    then have "applyEdit (Substitute i c) t = Some (t[i := c])"
      using Suc.prems by (auto split: if_splits)
    then have "\<And>zs. lev t zs \<le> 1 + lev (t[i := c]) zs"
      using Suc.IH by blast
    then have "lev (x # t) b \<le> 1 + lev (x # t[i := c]) b"
      by (rule lev_context)
    then show ?case using Suc.prems s by (auto split: if_splits)
  qed
qed

lemma lev_lower_bound: "applyEdits es a = Some b \<Longrightarrow> lev a b \<le> length es"
proof (induction es arbitrary: a)
  case Nil
  then show ?case by (simp add: lev_refl)
next
  case (Cons e es)
  then obtain a' where a': "applyEdit e a = Some a'" "applyEdits es a' = Some b"
    by (auto split: option.splits)
  have "lev a b \<le> 1 + lev a' b" by (rule applyEdit_step [OF a'(1)])
  also have "\<dots> \<le> 1 + length es" using Cons.IH [OF a'(2)] by simp
  finally show ?case by simp
qed

lemma applyEdit_shift:
  "applyEdit e s = Some s' \<Longrightarrow> applyEdit (shiftEdit e) (x # s) = Some (x # s')"
  by (cases e) (auto split: if_splits)

lemma applyEdits_shift:
  "applyEdits es s = Some s' \<Longrightarrow> applyEdits (map shiftEdit es) (x # s) = Some (x # s')"
proof (induction es arbitrary: s)
  case Nil
  then show ?case by simp
next
  case (Cons e es)
  then obtain t where t: "applyEdit e s = Some t" "applyEdits es t = Some s'"
    by (auto split: option.splits)
  show ?case using applyEdit_shift [OF t(1)] Cons.IH [OF t(2)] by simp
qed

lemma lev_upper_bound: "\<exists>es. applyEdits es a = Some b \<and> length es = lev a b"
proof (induction a b rule: lev.induct)
  case (1 ys)
  show ?case
  proof (induction ys)
    case Nil
    have "applyEdits [] [] = Some [] \<and> length ([]::edit list) = lev [] []" by simp
    then show ?case by blast
  next
    case (Cons y ys)
    then obtain es where es: "applyEdits es [] = Some ys" "length es = lev [] ys" by blast
    have "applyEdits (Insert 0 y # map shiftEdit es) [] = Some (y # ys)"
      using applyEdits_shift [OF es(1)] by simp
    moreover have "length (Insert 0 y # map shiftEdit es) = lev [] (y # ys)"
      using es(2) by simp
    ultimately show ?case by blast
  qed
next
  case (2 x xs)
  show ?case
  proof (induction xs arbitrary: x)
    case Nil
    have "applyEdits [Delete 0] [x] = Some [] \<and> length [Delete 0] = lev [x] []" by simp
    then show ?case by blast
  next
    case (Cons x' xs)
    then obtain es where es: "applyEdits es (x' # xs) = Some []" "length es = lev (x' # xs) []"
      by blast
    have "applyEdits (Delete 0 # es) (x # x' # xs) = Some []
          \<and> length (Delete 0 # es) = lev (x # x' # xs) []"
      using es by simp
    then show ?case by blast
  qed
next
  case (3 x xs y ys)
  obtain e1 where e1: "applyEdits e1 xs = Some (y # ys)" "length e1 = lev xs (y # ys)"
    using "3.IH"(1) by blast
  obtain e2 where e2: "applyEdits e2 (x # xs) = Some ys" "length e2 = lev (x # xs) ys"
    using "3.IH"(2) by blast
  obtain e3 where e3: "applyEdits e3 xs = Some ys" "length e3 = lev xs ys"
    using "3.IH"(3) by blast
  have d: "applyEdits (Delete 0 # e1) (x # xs) = Some (y # ys)
           \<and> length (Delete 0 # e1) = lev xs (y # ys) + 1"
    using e1 by simp
  have i: "applyEdits (Insert 0 y # map shiftEdit e2) (x # xs) = Some (y # ys)
           \<and> length (Insert 0 y # map shiftEdit e2) = lev (x # xs) ys + 1"
    using applyEdits_shift [OF e2(1)] e2(2) by simp
  have s: "\<exists>es. applyEdits es (x # xs) = Some (y # ys)
              \<and> length es = lev xs ys + (if x = y then 0 else 1)"
  proof (cases "x = y")
    case True
    have "applyEdits (map shiftEdit e3) (x # xs) = Some (y # ys)
          \<and> length (map shiftEdit e3) = lev xs ys + (if x = y then 0 else 1)"
      using applyEdits_shift [OF e3(1)] e3(2) True by simp
    then show ?thesis by blast
  next
    case False
    have "applyEdits (Substitute 0 y # map shiftEdit e3) (x # xs) = Some (y # ys)
          \<and> length (Substitute 0 y # map shiftEdit e3) = lev xs ys + (if x = y then 0 else 1)"
      using applyEdits_shift [OF e3(1)] e3(2) False by simp
    then show ?thesis by blast
  qed
  have "lev (x # xs) (y # ys) = lev xs (y # ys) + 1
        \<or> lev (x # xs) (y # ys) = lev (x # xs) ys + 1
        \<or> lev (x # xs) (y # ys) = lev xs ys + (if x = y then 0 else 1)"
    by (simp add: min_def)
  then show ?case using d i s by metis
qed

lemma applyEdit_mirror:
  "applyEdit e s = Some s' \<Longrightarrow> applyEdit (mirrorEdit (length s) e) (rev s) = Some (rev s')"
proof (cases e)
  case (Insert i c)
  assume "applyEdit e s = Some s'"
  then show ?thesis using Insert by (auto simp: rev_take rev_drop split: if_splits)
next
  case (Delete i)
  assume "applyEdit e s = Some s'"
  then show ?thesis using Delete
    by (auto simp: rev_take rev_drop Suc_diff_Suc split: if_splits)
next
  case (Substitute i c)
  assume "applyEdit e s = Some s'"
  then show ?thesis using Substitute by (auto simp: rev_update split: if_splits)
qed

lemma applyEdits_mirror:
  "applyEdits es s = Some s' \<Longrightarrow>
   \<exists>es'. applyEdits es' (rev s) = Some (rev s') \<and> length es' = length es"
proof (induction es arbitrary: s)
  case Nil
  then have "applyEdits [] (rev s) = Some (rev s') \<and> length ([]::edit list) = length ([]::edit list)"
    by simp
  then show ?case by blast
next
  case (Cons e es)
  then obtain t where t: "applyEdit e s = Some t" "applyEdits es t = Some s'"
    by (auto split: option.splits)
  obtain es' where es': "applyEdits es' (rev t) = Some (rev s')" "length es' = length es"
    using Cons.IH [OF t(2)] by blast
  have "applyEdits (mirrorEdit (length s) e # es') (rev s) = Some (rev s')
        \<and> length (mirrorEdit (length s) e # es') = length (e # es)"
    using applyEdit_mirror [OF t(1)] es' by simp
  then show ?case by blast
qed

lemma lev_rev_le: "lev (rev a) (rev b) \<le> lev a b"
proof -
  obtain es where es: "applyEdits es a = Some b" "length es = lev a b"
    using lev_upper_bound by blast
  obtain es' where "applyEdits es' (rev a) = Some (rev b)" "length es' = length es"
    using applyEdits_mirror [OF es(1)] by blast
  then show ?thesis using lev_lower_bound es(2) by metis
qed

lemma lev_rev: "lev (rev a) (rev b) = lev a b"
  using lev_rev_le [of a b] lev_rev_le [of "rev a" "rev b"] by simp

section \<open>The matrix holds the recurrence\<close>

lemma initMatrix_replicate:
  "length m = i \<Longrightarrow> i \<le> Suc (length t2) \<Longrightarrow>
   initMatrix t1 t2 i m = m @ replicate (Suc (length t2) - i) (replicate (length t1 + 1) 0)"
proof (induction t1 t2 i m rule: initMatrix.induct)
  case (1 t1 t2 i m)
  show ?case
  proof (cases "i \<le> length t2")
    case False
    then have "Suc (length t2) - i = 0" using "1.prems" by simp
    then show ?thesis using False by (subst initMatrix.simps) simp
  next
    case True
    let ?row = "replicate (length t1 + 1) (0::nat)"
    have s: "setRow m i ?row = m @ [?row]" using "1.prems"(1) by (simp add: setRow_def)
    have l: "length (setRow m i ?row) = Suc i"
      unfolding s using "1.prems"(1) by simp
    have "initMatrix t1 t2 (Suc i) (setRow m i ?row)
            = setRow m i ?row @ replicate (Suc (length t2) - Suc i) ?row"
      using True by (intro "1.IH" [OF True] l) simp
    also have "\<dots> = m @ replicate (Suc (Suc (length t2) - Suc i)) ?row"
      unfolding s by (simp del: replicate.simps add: replicate_Suc [symmetric])
    also have "Suc (Suc (length t2) - Suc i) = Suc (length t2) - i" using True by simp
    finally show ?thesis using True by (subst initMatrix.simps) simp
  qed
qed

lemma filled_initial:
  "filled t1 t2 (initMatrix t1 t2 0 []) 0 0"
  by (simp add: initMatrix_replicate filled_def del: replicate.simps)

lemma levCell_0_left: "j \<le> length t1 \<Longrightarrow> levCell t1 t2 0 j = j"
  by (simp add: levCell_def)

lemma levCell_0_right: "i \<le> length t2 \<Longrightarrow> levCell t1 t2 i 0 = i"
  by (simp add: levCell_def)

lemma levCell_Suc:
  assumes "i < length t2" and "j < length t1"
  shows "levCell t1 t2 (Suc i) (Suc j)
         = min (levCell t1 t2 i (Suc j) + 1)
             (min (levCell t1 t2 (Suc i) j + 1)
                (levCell t1 t2 i j + (if t1 ! j = t2 ! i then 0 else 1)))"
proof -
  have a: "rev (take (Suc j) t1) = t1 ! j # rev (take j t1)"
    using assms(2) by (simp add: take_Suc_conv_app_nth)
  have b: "rev (take (Suc i) t2) = t2 ! i # rev (take i t2)"
    using assms(1) by (simp add: take_Suc_conv_app_nth)
  show ?thesis
    unfolding levCell_def a b by (simp add: min.commute min.left_commute)
qed

lemma cellValue_levCell:
  assumes f: "filled t1 t2 m i j" and i: "i \<le> length t2" and j: "j \<le> length t1"
  shows "cellValue t1 t2 m i j = levCell t1 t2 i j"
proof (cases "i = 0 \<or> j = 0")
  case True
  then show ?thesis
    using i j by (auto simp: cellValue_def levCell_0_left levCell_0_right)
next
  case False
  then obtain i' j' where ij: "i = Suc i'" "j = Suc j'"
    by (metis not0_implies_Suc)
  have e: "\<And>r c. r \<le> length t2 \<Longrightarrow> c \<le> length t1 \<Longrightarrow> r < i \<or> (r = i \<and> c < j)
             \<Longrightarrow> m ! r ! c = levCell t1 t2 r c"
    using f unfolding filled_def by blast
  have up: "m ! i' ! j = levCell t1 t2 i' j" using i j ij by (intro e) simp_all
  have left: "m ! i ! j' = levCell t1 t2 i j'" using i j ij by (intro e) simp_all
  have diag: "m ! i' ! j' = levCell t1 t2 i' j'" using i j ij by (intro e) simp_all
  have "cellValue t1 t2 m i j
          = min (levCell t1 t2 i' j + 1)
              (min (levCell t1 t2 i j' + 1)
                 (levCell t1 t2 i' j' + (if t1 ! j' = t2 ! i' then 0 else 1)))"
    using up left diag ij by (simp add: cellValue_def Let_def)
  also have "\<dots> = levCell t1 t2 i j"
    unfolding ij using i j ij by (subst levCell_Suc) simp_all
  finally show ?thesis .
qed

lemma filled_step:
  assumes f: "filled t1 t2 m i j" and i: "i \<le> length t2" and j: "j \<le> length t1"
  shows "filled t1 t2 (m[i := (m ! i)[j := cellValue t1 t2 m i j]]) i (Suc j)"
proof -
  let ?m = "m[i := (m ! i)[j := cellValue t1 t2 m i j]]"
  have len: "length m = Suc (length t2)"
    and rows: "\<And>r. r \<le> length t2 \<Longrightarrow> length (m ! r) = Suc (length t1)"
    and e: "\<And>r c. r \<le> length t2 \<Longrightarrow> c \<le> length t1 \<Longrightarrow> r < i \<or> (r = i \<and> c < j)
             \<Longrightarrow> m ! r ! c = levCell t1 t2 r c"
    using f unfolding filled_def by blast+
  have v: "cellValue t1 t2 m i j = levCell t1 t2 i j"
    by (rule cellValue_levCell [OF f i j])
  have il: "i < length m" using i len by simp
  have jl: "j < length (m ! i)" using rows [OF i] j by simp
  have rows': "\<forall>r \<le> length t2. length (?m ! r) = Suc (length t1)"
  proof (intro allI impI)
    fix r assume r: "r \<le> length t2"
    show "length (?m ! r) = Suc (length t1)"
      using rows [OF r] rows [OF i] il by (cases "r = i") simp_all
  qed
  have e': "\<forall>r \<le> length t2. \<forall>c \<le> length t1.
          r < i \<or> (r = i \<and> c < Suc j) \<longrightarrow> ?m ! r ! c = levCell t1 t2 r c"
  proof (intro allI impI)
    fix r c assume r: "r \<le> length t2" and c: "c \<le> length t1"
      and rc: "r < i \<or> (r = i \<and> c < Suc j)"
    show "?m ! r ! c = levCell t1 t2 r c"
    proof (cases "r = i")
      case False
      then have "?m ! r = m ! r" by simp
      then show ?thesis using e [OF r c] rc False by simp
    next
      case True
      then have row: "?m ! r = (m ! i)[j := cellValue t1 t2 m i j]" using il by simp
      show ?thesis
      proof (cases "c = j")
        case True
        then show ?thesis using row jl v \<open>r = i\<close> by simp
      next
        case False
        then have "c < j" using rc \<open>r = i\<close> by simp
        then show ?thesis using row False e [OF r c] \<open>r = i\<close> by simp
      qed
    qed
  qed
  show ?thesis unfolding filled_def using len rows' e' by simp
qed

lemma filled_next_row:
  "filled t1 t2 m i (Suc (length t1)) \<Longrightarrow> filled t1 t2 m (Suc i) 0"
proof -
  assume f: "filled t1 t2 m i (Suc (length t1))"
  have "\<forall>r \<le> length t2. \<forall>c \<le> length t1.
          r < Suc i \<or> (r = Suc i \<and> c < 0) \<longrightarrow> m ! r ! c = levCell t1 t2 r c"
  proof (intro allI impI)
    fix r c assume r: "r \<le> length t2" and c: "c \<le> length t1"
      and "r < Suc i \<or> (r = Suc i \<and> c < 0)"
    then have "r < i \<or> (r = i \<and> c < Suc (length t1))" by auto
    then show "m ! r ! c = levCell t1 t2 r c"
      using f r c unfolding filled_def by blast
  qed
  then show ?thesis using f unfolding filled_def by blast
qed

lemma populateRow_filled:
  "filled t1 t2 m i j \<Longrightarrow> i \<le> length t2 \<Longrightarrow> j \<le> Suc (length t1) \<Longrightarrow>
   filled t1 t2 (populateRow t1 t2 i j m) (Suc i) 0"
proof (induction t1 t2 i j m rule: populateRow.induct)
  case (1 t1 t2 i j m)
  show ?case
  proof (cases "j \<le> length t1")
    case False
    then have "j = Suc (length t1)" using "1.prems"(3) by simp
    then show ?thesis
      using "1.prems"(1) filled_next_row False by (subst populateRow.simps) simp
  next
    case True
    have "filled t1 t2 (populateRow t1 t2 i (Suc j)
            (m[i := (m ! i)[j := cellValue t1 t2 m i j]])) (Suc i) 0"
      using True "1.prems"
      by (intro "1.IH" [OF True] filled_step) simp_all
    then show ?thesis using True by (subst populateRow.simps) simp
  qed
qed

lemma populate_filled:
  "filled t1 t2 m i 0 \<Longrightarrow> i \<le> Suc (length t2) \<Longrightarrow>
   filled t1 t2 (populate t1 t2 i m) (Suc (length t2)) 0"
proof (induction t1 t2 i m rule: populate.induct)
  case (1 t1 t2 i m)
  show ?case
  proof (cases "i \<le> length t2")
    case False
    then have "i = Suc (length t2)" using "1.prems"(2) by simp
    then show ?thesis using "1.prems"(1) False by (subst populate.simps) simp
  next
    case True
    have "filled t1 t2 (populate t1 t2 (Suc i) (populateRow t1 t2 i 0 m)) (Suc (length t2)) 0"
      using True "1.prems"
      by (intro "1.IH" [OF True] populateRow_filled) simp_all
    then show ?thesis using True by (subst populate.simps) simp
  qed
qed

lemma levenshteinDistance_lev: "levenshteinDistance a b = lev a b"
proof -
  have "levenshteinDistance a b = lev (rev a) (rev b)"
  proof (cases "a = [] \<or> b = []")
    case True
    then show ?thesis by (auto simp: levenshteinDistance_def)
  next
    case False
    have "filled a b (populate a b 0 (initMatrix a b 0 [])) (Suc (length b)) 0"
      by (intro populate_filled filled_initial) simp
    then have "populate a b 0 (initMatrix a b 0 []) ! length b ! length a
                 = levCell a b (length b) (length a)"
      unfolding filled_def by simp
    then show ?thesis using False by (simp add: levenshteinDistance_def levCell_def)
  qed
  then show ?thesis by (simp add: lev_rev)
qed

text \<open>
  C2. The result of \<open>levenshteinDistance\<close> is the minimum number of single-character
  insertions, deletions and substitutions that transform the first string into the second:
  some sequence of that many edits does, and no shorter one. If one of the strings is empty
  the result is the length of the other.
\<close>

theorem levenshteinDistance_minimal_edits:
  "(\<exists>es. applyEdits es a = Some b \<and> length es = levenshteinDistance a b)
   \<and> (\<forall>es. applyEdits es a = Some b \<longrightarrow> levenshteinDistance a b \<le> length es)
   \<and> levenshteinDistance [] b = length b
   \<and> levenshteinDistance a [] = length a"
  using lev_upper_bound [of a b] lev_lower_bound [of _ a b]
  by (simp add: levenshteinDistance_lev)

theorem levenshteinDistance_minimal_edits_witness:
  "applyEdits kittenEdits ''kitten'' = Some ''sitting''
   \<and> levenshteinDistance ''kitten'' ''sitting'' \<le> length kittenEdits
   \<and> length kittenEdits = 3
   \<and> levenshteinDistance ''kitten'' ''sitting'' = 3
   \<and> levenshteinDistance [] ''sitting'' = 7"
proof -
  have a: "applyEdits kittenEdits ''kitten'' = Some ''sitting''" by code_simp
  have b: "length kittenEdits = 3" by code_simp
  have c: "levenshteinDistance ''kitten'' ''sitting'' = 3" by code_simp
  have d: "levenshteinDistance [] ''sitting'' = 7" by code_simp
  show ?thesis
    using levenshteinDistance_minimal_edits [of "''kitten''" "''sitting''"] a b c d by blast
qed

lemma exampleResult_eval: "getCurrentDocContext exampleEnv exampleParams = Inr exampleResult"
  by code_simp

lemma shortSuffix_eval:
  "getCurrentDocContext exampleEnv (exampleParams\<lparr>maxSuffixLength := 1\<rparr>)
     = Inr shortSuffixResult"
  by code_simp

lemma widgetResult_eval_wide:
  "getCurrentDocContext exampleEnv (widgetParams 100) = Inr (widgetResult ''abcdef'' 0)"
  by code_simp

lemma widgetResult_eval_narrow:
  "getCurrentDocContext exampleEnv (widgetParams 1) = Inr (widgetResult [] 2)"
  by code_simp

section \<open>Prefix and suffix truncation\<close>

lemma prefixOf_truncated:
  "int offset > mx \<Longrightarrow> \<exists>s. keptBackward ls mx s \<and> prefixOf ls offset mx = joinNewline (drop s ls)"
proof -
  assume "int offset > mx"
  moreover have "keptBackward ls mx (prefixWalk ls mx (length ls) 0 (length ls))"
    by (rule prefixWalk_kept) simp_all
  ultimately show ?thesis unfolding prefixOf_def by auto
qed

lemma suffixOf_kept:
  "\<exists>n. keptForward ls mx n \<and> suffixOf ls mx = joinNewline (take n ls)"
proof -
  have "keptForward ls mx (suffixWalk ls mx 0 0 0)"
    by (rule suffixWalk_kept) simp_all
  then show ?thesis unfolding suffixOf_def by auto
qed

lemma suffixOf_first_line_too_long:
  "int (length (hd ls)) > mx \<Longrightarrow> ls \<noteq> [] \<Longrightarrow> suffixOf ls mx = []"
  by (cases ls) (simp_all add: suffixOf_def suffixWalk.simps)

text \<open>
  C5. When the offset of the cursor exceeds \<open>maxPrefixLength\<close>, the prefix is the
  newline-join of the lines kept by the backward walk over the (possibly patched) lines
  before the cursor: every kept tail of the sequence has a total of raw line lengths within
  the cap, and the line before the first kept one would exceed it. Otherwise the prefix is
  the whole (possibly patched) text before the cursor.
\<close>

theorem prefix_truncation:
  assumes "getCurrentDocContext env params = Inr r"
  shows "(int (cursorOffset params) > maxPrefixLength params \<longrightarrow>
            (\<exists>s. keptBackward (prefixLines params) (maxPrefixLength params) s
               \<and> prefix r = joinNewline (drop s (prefixLines params))))
       \<and> (int (cursorOffset params) \<le> maxPrefixLength params \<longrightarrow>
            prefix r = completePrefixWithContextCompletion (document params) (position params)
                         (completionContext params))"
proof (intro conjI impI)
  assume "int (cursorOffset params) > maxPrefixLength params"
  then show "\<exists>s. keptBackward (prefixLines params) (maxPrefixLength params) s
               \<and> prefix r = joinNewline (drop s (prefixLines params))"
    using prefixOf_truncated getCurrentDocContext_fields(1) [OF assms] by simp
next
  assume "int (cursorOffset params) \<le> maxPrefixLength params"
  then show "prefix r = completePrefixWithContextCompletion (document params) (position params)
                         (completionContext params)"
    using getCurrentDocContext_fields(1) [OF assms]
    by (simp add: prefixOf_def prefixLines_def joinNewline_lines)
qed

theorem prefix_truncation_witness:
  "int (cursorOffset exampleParams) > maxPrefixLength exampleParams
   \<and> (\<exists>s. keptBackward (prefixLines exampleParams) (maxPrefixLength exampleParams) s
        \<and> prefix exampleResult = joinNewline (drop s (prefixLines exampleParams)))
   \<and> prefix exampleResult = ''de\<newline>f''
   \<and> int (cursorOffset (widgetParams 100)) \<le> maxPrefixLength (widgetParams 100)
   \<and> prefix (widgetResult ''abcdef'' 0)
       = completePrefixWithContextCompletion (document (widgetParams 100))
           (position (widgetParams 100)) (completionContext (widgetParams 100))"
proof -
  have over: "int (cursorOffset exampleParams) > maxPrefixLength exampleParams"
    by code_simp
  have within: "int (cursorOffset (widgetParams 100)) \<le> maxPrefixLength (widgetParams 100)"
    by code_simp
  have "prefix exampleResult = ''de\<newline>f''"
    by (simp add: exampleResult_def)
  then show ?thesis
    using over within prefix_truncation [OF exampleResult_eval]
      prefix_truncation [OF widgetResult_eval_wide] by blast
qed

text \<open>
  C6. The suffix is the newline-join of the lines kept by the forward walk over the lines
  after the cursor: every kept initial segment has a total of raw line lengths within
  \<open>maxSuffixLength\<close>, and the first line left out would exceed it. If already the first
  line is longer than the cap, the suffix is empty.
\<close>

theorem suffix_truncation:
  assumes "getCurrentDocContext env params = Inr r"
  shows "(\<exists>n. keptForward (suffixLines params) (maxSuffixLength params) n
            \<and> suffix r = joinNewline (take n (suffixLines params)))
       \<and> (int (length (hd (suffixLines params))) > maxSuffixLength params \<longrightarrow> suffix r = [])"
  using getCurrentDocContext_fields(2) [OF assms] suffixOf_kept
    suffixOf_first_line_too_long [where ls = "suffixLines params" and mx = "maxSuffixLength params"]
  by (simp add: suffixLines_def lines_not_Nil)

theorem suffix_truncation_witness:
  "(\<exists>n. keptForward (suffixLines exampleParams) (maxSuffixLength exampleParams) n
        \<and> suffix exampleResult = joinNewline (take n (suffixLines exampleParams)))
   \<and> suffix exampleResult = ''gh\<newline>i''
   \<and> suffixLines exampleParams = [''gh'', ''i'', ''jkl'']
   \<and> int (length (hd (suffixLines (exampleParams\<lparr>maxSuffixLength := 1\<rparr>))))
       > maxSuffixLength (exampleParams\<lparr>maxSuffixLength := 1\<rparr>)
   \<and> suffix shortSuffixResult = []"
proof -
  have "suffix exampleResult = ''gh\<newline>i''"
    by (simp add: exampleResult_def)
  moreover have "suffixLines exampleParams = [''gh'', ''i'', ''jkl'']"
    by code_simp
  moreover have "int (length (hd (suffixLines (exampleParams\<lparr>maxSuffixLength := 1\<rparr>))))
       > maxSuffixLength (exampleParams\<lparr>maxSuffixLength := 1\<rparr>)"
    by code_simp
  ultimately show ?thesis
    using suffix_truncation [OF exampleResult_eval] suffix_truncation [OF shortSuffix_eval]
    by blast
qed

section \<open>The injected prefix\<close>

lemma suffix_joinNewline_Cons: "Sublist.suffix (joinNewline ls) (joinNewline (l # ls))"
  by (cases ls) (auto simp: Sublist.suffix_def)

lemma suffix_joinNewline_drop: "Sublist.suffix (joinNewline (drop s ls)) (joinNewline ls)"
proof (induction ls arbitrary: s)
  case Nil
  show ?case by simp
next
  case (Cons l ls)
  show ?case
  proof (cases s)
    case 0
    then show ?thesis by simp
  next
    case (Suc s')
    have "Sublist.suffix (joinNewline (drop s' ls)) (joinNewline ls)" by (rule Cons.IH)
    then show ?thesis
      using Suc suffix_joinNewline_Cons [of ls l] suffix_order.trans by auto
  qed
qed

lemma prefixOf_suffix: "Sublist.suffix (prefixOf (lines s) offset mx) s"
  using suffix_joinNewline_drop [of _ "lines s"]
  by (simp add: prefixOf_def joinNewline_lines)

lemma injectedPrefixOf_Some:
  assumes "injectedPrefixOf d pos ctx = Some injected"
  shows "injected \<noteq> []"
    and "injected = drop (length (completePrefix d pos)) (completePrefixWithContextCompletion d pos ctx)"
    and "\<exists>info. selectedInfo ctx = Some info"
  using assms
  by (auto simp: injectedPrefixOf_def sliceFrom_def Let_def min_def
           split: option.splits if_splits)

lemma length_sliceTo: "length (sliceTo s e) \<le> length s"
  by (simp add: sliceTo_def Let_def)

text \<open>
  C7. The injected prefix is never the empty string. Without a selected completion it is
  the "none" marker; with one whose splice adds nothing after the original text before the
  cursor, it is the "none" marker as well.
\<close>

theorem injectedPrefix_never_empty:
  assumes "getCurrentDocContext env params = Inr r"
  shows "injectedPrefix r \<noteq> Some []
       \<and> (selectedInfo (completionContext params) = None \<longrightarrow> injectedPrefix r = None)
       \<and> (sliceFrom (completePrefixWithContextCompletion (document params) (position params)
                        (completionContext params))
             (length (completePrefix (document params) (position params))) = []
            \<longrightarrow> injectedPrefix r = None)"
  using getCurrentDocContext_fields(3) [OF assms]
  by (auto simp: injectedPrefixOf_def Let_def split: option.splits)

lemma sameText_eval:
  "getCurrentDocContext exampleEnv (exampleParams\<lparr>completionContext := sameTextContext\<rparr>)
     = Inr exampleResult"
  by code_simp

theorem injectedPrefix_never_empty_witness:
  "injectedPrefix exampleResult = None
   \<and> selectedInfo (completionContext exampleParams) = None
   \<and> selectedInfo sameTextContext \<noteq> None
   \<and> sliceFrom (completePrefixWithContextCompletion exampleDocument \<lparr>line = 2, character = 1\<rparr>
                   sameTextContext)
        (length (completePrefix exampleDocument \<lparr>line = 2, character = 1\<rparr>)) = []
   \<and> injectedPrefix (widgetResult ''abcdef'' 0) = Some ''cdef''"
proof -
  have a: "selectedInfo (completionContext exampleParams) = None" by code_simp
  have b: "selectedInfo sameTextContext \<noteq> None" by code_simp
  have c: "sliceFrom (completePrefixWithContextCompletion exampleDocument
                        \<lparr>line = 2, character = 1\<rparr> sameTextContext)
             (length (completePrefix exampleDocument \<lparr>line = 2, character = 1\<rparr>)) = []"
    by code_simp
  have d: "injectedPrefix (widgetResult ''abcdef'' 0) = Some ''cdef''"
    by (simp add: widgetResult_def)
  have "injectedPrefix exampleResult = None"
    using injectedPrefix_never_empty [OF exampleResult_eval] a by blast
  moreover have "injectedPrefix exampleResult = None"
    using injectedPrefix_never_empty [OF sameText_eval] c
    by (simp add: exampleParams_def)
  ultimately show ?thesis using a b c d by blast
qed

text \<open>
  C9. The claim fails where the prefix is truncated: the widget offers \<open>abcdef\<close> after
  \<open>ab\<close> was typed, the cap is 1, and the walk keeps no line; the injected prefix \<open>cdef\<close>
  is not a suffix of the empty prefix.
\<close>

theorem injectedPrefix_suffix_counterexample:
  "getCurrentDocContext exampleEnv (widgetParams 1) = Inr (widgetResult [] 2)
   \<and> 0 < maxPrefixLength (widgetParams 1)
   \<and> injectedPrefix (widgetResult [] 2) = Some ''cdef''
   \<and> prefix (widgetResult [] 2) = []
   \<and> \<not> Sublist.suffix ''cdef'' (prefix (widgetResult [] 2))"
  using widgetResult_eval_narrow by (simp add: widgetResult_def widgetParams_def)

text \<open>
  C9, amended. A present injected prefix is a suffix of the patched text before the cursor,
  and so is the returned prefix; hence the injected prefix is a suffix of the returned prefix
  whenever it is not longer than it, in particular whenever the offset of the cursor does
  not exceed \<open>maxPrefixLength\<close>. Its length is the number of characters by which the
  patched text is longer than the original text before the cursor, and at most the length
  of the replacement text.
\<close>

theorem injectedPrefix_suffix:
  assumes "getCurrentDocContext env params = Inr r"
    and "injectedPrefix r = Some injected"
  shows "Sublist.suffix injected (completePrefixWithContextCompletion (document params)
                               (position params) (completionContext params))
       \<and> Sublist.suffix (prefix r) (completePrefixWithContextCompletion (document params)
                               (position params) (completionContext params))
       \<and> (length injected \<le> length (prefix r) \<longrightarrow> Sublist.suffix injected (prefix r))
       \<and> (int (cursorOffset params) \<le> maxPrefixLength params \<longrightarrow> Sublist.suffix injected (prefix r))
       \<and> length injected = length (completePrefixWithContextCompletion (document params)
                                 (position params) (completionContext params))
                       - length (completePrefix (document params) (position params))
       \<and> (\<forall>info. selectedInfo (completionContext params) = Some info
             \<longrightarrow> length injected \<le> length (completionText info))"
proof -
  let ?patched = "completePrefixWithContextCompletion (document params) (position params)
                    (completionContext params)"
  let ?complete = "completePrefix (document params) (position params)"
  have injected: "injectedPrefixOf (document params) (position params) (completionContext params)
               = Some injected"
    using getCurrentDocContext_fields(3) [OF assms(1)] assms(2) by simp
  have eq: "injected = drop (length ?complete) ?patched"
    by (rule injectedPrefixOf_Some(2) [OF injected])
  have s1: "Sublist.suffix injected ?patched"
    unfolding eq by (rule suffix_drop)
  have p: "prefix r = prefixOf (lines ?patched) (cursorOffset params) (maxPrefixLength params)"
    using getCurrentDocContext_fields(1) [OF assms(1)] by (simp add: prefixLines_def)
  have s2: "Sublist.suffix (prefix r) ?patched"
    unfolding p by (rule prefixOf_suffix)
  have s3: "length injected \<le> length (prefix r) \<longrightarrow> Sublist.suffix injected (prefix r)"
    using s1 s2 suffix_length_suffix by blast
  have s4: "int (cursorOffset params) \<le> maxPrefixLength params \<longrightarrow> Sublist.suffix injected (prefix r)"
    using s1 p by (simp add: prefixOf_def joinNewline_lines)
  have s5: "length injected = length ?patched - length ?complete"
    unfolding eq by simp
  have s6: "\<forall>info. selectedInfo (completionContext params) = Some info
             \<longrightarrow> length injected \<le> length (completionText info)"
    unfolding s5 using length_sliceTo [of ?complete]
    by (auto simp: completePrefixWithContextCompletion_def le_diff_conv add.commute trans_le_add1)
  show ?thesis using s1 s2 s3 s4 s5 s6 by blast
qed

theorem injectedPrefix_suffix_witness:
  "injectedPrefix (widgetResult ''abcdef'' 0) = Some ''cdef''
   \<and> int (cursorOffset (widgetParams 100)) \<le> maxPrefixLength (widgetParams 100)
   \<and> Sublist.suffix ''cdef'' (prefix (widgetResult ''abcdef'' 0))
   \<and> length ''cdef'' = length (completePrefixWithContextCompletion
                                  (document (widgetParams 100)) (position (widgetParams 100))
                                  (completionContext (widgetParams 100)))
                        - length (completePrefix (document (widgetParams 100))
                                    (position (widgetParams 100)))
   \<and> prefix (widgetResult ''abcdef'' 0) = ''abcdef''
   \<and> (\<exists>info. selectedInfo (completionContext (widgetParams 100)) = Some info
         \<and> completionText info = ''abcdef''
         \<and> length ''cdef'' \<le> length (completionText info))"
proof -
  have i: "injectedPrefix (widgetResult ''abcdef'' 0) = Some ''cdef''"
    by (simp add: widgetResult_def)
  have o: "int (cursorOffset (widgetParams 100)) \<le> maxPrefixLength (widgetParams 100)"
    by code_simp
  have p: "prefix (widgetResult ''abcdef'' 0) = ''abcdef''"
    by (simp add: widgetResult_def)
  have t: "\<exists>info. selectedInfo (completionContext (widgetParams 100)) = Some info
             \<and> completionText info = ''abcdef''"
    by (simp add: widgetParams_def widgetContext_def selectedInfo_def)
  show ?thesis
    using injectedPrefix_suffix [OF widgetResult_eval_wide i] i o p t by blast
qed

section \<open>The sliding-window search returns a first maximal block\<close>

lemma reduce_sumFrom:
  "foldl (\<lambda>acc l. addNumber acc (semanticSimilarity cur l)) a block
     = sumFrom a (map (semanticSimilarity cur) block)"
  by (induction block arbitrary: a) simp_all

lemma aggregateSimilarityScore_blockScore:
  "aggregateSimilarityScore cur (candidateBlock d i k) = blockScore d cur k i"
  by (simp add: aggregateSimilarityScore_def blockScore_def reduce_sumFrom)

lemma sequenceLines_Inr: "sequenceLines (map Inr xs) = Inr xs"
  by (induction xs) auto

lemma blockOfLines_candidate:
  assumes "isCandidate d k i"
  shows "blockOfLines d i k = Inr (candidateBlock d i k)"
proof -
  have len: "i + k \<le> length (docLines d)"
    using assms by (simp add: isCandidate_def lineCount_def)
  have "map (\<lambda>idx. lineAt d (i + idx)) [0..<k] = map Inr (candidateBlock d i k)"
  proof (rule nth_equalityI)
    show "length (map (\<lambda>idx. lineAt d (i + idx)) [0..<k]) = length (map Inr (candidateBlock d i k))"
      using len by (simp add: candidateBlock_def)
  next
    fix n assume "n < length (map (\<lambda>idx. lineAt d (i + idx)) [0..<k])"
    then have n: "n < k" by simp
    then show "map (\<lambda>idx. lineAt d (i + idx)) [0..<k] ! n = map Inr (candidateBlock d i k) ! n"
      using len by (simp add: candidateBlock_def lineAt_def lineCount_def)
  qed
  then show ?thesis by (simp add: blockOfLines_def sequenceLines_Inr)
qed


lemma gtNumber_trans: "gtNumber a b \<Longrightarrow> gtNumber b c \<Longrightarrow> gtNumber a c"
  by (cases a; cases b; cases c) auto

lemma gtNumber_irrefl: "\<not> gtNumber a a"
  by (cases a) auto

lemma gtNumber_Finite: "gtNumber a b \<Longrightarrow> \<exists>h. a = Finite h"
  by (cases a; cases b) auto

lemma not_gtNumber_step:
  "gtNumber a h \<Longrightarrow> \<not> gtNumber s h \<Longrightarrow> \<not> gtNumber s a"
  using gtNumber_trans by blast

lemma searchInv_step_better:
  assumes inv: "searchInv d cur k i best"
    and better: "gtNumber (blockScore d cur k i) (similarityScore best)"
  shows "searchInv d cur k (Suc i)
           \<lparr>semanticContext = candidateBlock d i k, similarityScore = blockScore d cur k i\<rparr>"
proof -
  obtain h where h: "similarityScore best = Finite h" using inv by (auto simp: searchInv_def)
  obtain a where a: "blockScore d cur k i = Finite a" using gtNumber_Finite [OF better] by blast
  have lt: "h < a" using better h a by simp
  have old: "\<forall>j<i. \<not> gtNumber (blockScore d cur k j) (Finite h)"
    using inv h by (auto simp: searchInv_def)
  have nonneg: "0 \<le> h"
    using inv h gtNumber_irrefl [of "Finite 0"]
    by (auto simp: searchInv_def)
  have m: "\<forall>j<Suc i. \<not> gtNumber (blockScore d cur k j) (blockScore d cur k i)"
  proof (intro allI impI)
    fix j assume "j < Suc i"
    then consider "j = i" | "j < i" by linarith
    then show "\<not> gtNumber (blockScore d cur k j) (blockScore d cur k i)"
    proof cases
      case 1
      then show ?thesis by (simp add: gtNumber_irrefl)
    next
      case 2
      then have "\<not> gtNumber (blockScore d cur k j) (Finite h)" using old by blast
      then show ?thesis using not_gtNumber_step [OF better] h by simp
    qed
  qed
  have first: "\<forall>j<i. blockScore d cur k j \<noteq> blockScore d cur k i"
  proof (intro allI impI)
    fix j assume "j < i"
    then have "\<not> gtNumber (blockScore d cur k j) (Finite h)" using old by blast
    then show "blockScore d cur k j \<noteq> blockScore d cur k i" using a lt by auto
  qed
  have pos: "gtNumber (blockScore d cur k i) (Finite 0)"
    using a lt nonneg by simp
  show ?thesis
    unfolding searchInv_def using a m first pos by auto
qed

lemma searchInv_step_same:
  assumes inv: "searchInv d cur k i best"
    and same: "\<not> gtNumber (blockScore d cur k i) (similarityScore best)"
  shows "searchInv d cur k (Suc i) best"
proof -
  have a: "\<forall>j<Suc i. \<not> gtNumber (blockScore d cur k j) (similarityScore best)"
    using inv same by (auto simp: searchInv_def less_Suc_eq)
  from inv consider
      (empty) "best = \<lparr>semanticContext = [], similarityScore = Finite 0\<rparr>"
        "\<forall>j<i. \<not> gtNumber (blockScore d cur k j) (Finite 0)"
    | (block) i0 where "i0 < i"
        "best = \<lparr>semanticContext = candidateBlock d i0 k, similarityScore = blockScore d cur k i0\<rparr>"
        "gtNumber (blockScore d cur k i0) (Finite 0)"
        "\<forall>j<i0. blockScore d cur k j \<noteq> blockScore d cur k i0"
    by (auto simp: searchInv_def)
  then show ?thesis
  proof cases
    case empty
    then have "\<forall>j<Suc i. \<not> gtNumber (blockScore d cur k j) (Finite 0)"
      using same by (auto simp: less_Suc_eq)
    then show ?thesis using inv a empty unfolding searchInv_def by auto
  next
    case block
    then have "i0 < Suc i" by simp
    then show ?thesis using inv a block unfolding searchInv_def by blast
  qed
qed

lemma searchLoop_inv:
  "searchInv d cur k i best \<Longrightarrow> highest = similarityScore best \<Longrightarrow> i \<le> Suc (lineCount d) - k \<Longrightarrow>
   \<exists>r. searchLoop d cur k i best highest = Inr r \<and> searchInv d cur k (Suc (lineCount d) - k) r"
proof (induction d cur k i best highest rule: searchLoop.induct)
  case (1 d cur k i best highest)
  show ?case
  proof (cases "int i \<le> int (lineCount d) - int k")
    case False
    then have "i = Suc (lineCount d) - k" using "1.prems"(3) by linarith
    moreover have "searchLoop d cur k i best highest = Inr best"
      using False by (subst searchLoop.simps) simp
    ultimately show ?thesis using "1.prems"(1) by simp
  next
    case True
    then have cand: "isCandidate d k i" by (simp add: isCandidate_def)
    have blk: "blockOfLines d i k = Inr (candidateBlock d i k)"
      by (rule blockOfLines_candidate [OF cand])
    have agg: "aggregateSimilarityScore cur (candidateBlock d i k) = blockScore d cur k i"
      by (rule aggregateSimilarityScore_blockScore)
    have next_le: "Suc i \<le> Suc (lineCount d) - k" using True by linarith
    show ?thesis
    proof (cases "gtNumber (blockScore d cur k i) highest")
      case better: True
      have "\<exists>r. searchLoop d cur k (Suc i)
                 \<lparr>semanticContext = candidateBlock d i k,
                  similarityScore = aggregateSimilarityScore cur (candidateBlock d i k)\<rparr>
                 (aggregateSimilarityScore cur (candidateBlock d i k)) = Inr r
               \<and> searchInv d cur k (Suc (lineCount d) - k) r"
      proof (rule "1.IH"(1) [OF True blk])
        show "gtNumber (aggregateSimilarityScore cur (candidateBlock d i k)) highest"
          using better agg by simp
        show "searchInv d cur k (Suc i)
                \<lparr>semanticContext = candidateBlock d i k,
                 similarityScore = aggregateSimilarityScore cur (candidateBlock d i k)\<rparr>"
          using searchInv_step_better [OF "1.prems"(1)] better "1.prems"(2) agg by simp
        show "aggregateSimilarityScore cur (candidateBlock d i k)
                = similarityScore \<lparr>semanticContext = candidateBlock d i k,
                     similarityScore = aggregateSimilarityScore cur (candidateBlock d i k)\<rparr>"
          by simp
        show "Suc i \<le> Suc (lineCount d) - k" by (rule next_le)
      qed
      then show ?thesis
        using True blk better agg by (subst searchLoop.simps) simp
    next
      case same: False
      have "\<exists>r. searchLoop d cur k (Suc i) best highest = Inr r
               \<and> searchInv d cur k (Suc (lineCount d) - k) r"
      proof (rule "1.IH"(2) [OF True blk])
        show "\<not> gtNumber (aggregateSimilarityScore cur (candidateBlock d i k)) highest"
          using same agg by simp
        show "searchInv d cur k (Suc i) best"
          using searchInv_step_same [OF "1.prems"(1)] same "1.prems"(2) by simp
        show "highest = similarityScore best" by (rule "1.prems"(2))
        show "Suc i \<le> Suc (lineCount d) - k" by (rule next_le)
      qed
      then show ?thesis
        using True blk same agg by (subst searchLoop.simps) simp
    qed
  qed
qed

lemma searchInv_initial:
  "searchInv d cur k 0 \<lparr>semanticContext = [], similarityScore = Finite 0\<rparr>"
  by (simp add: searchInv_def)

lemma getSemanticContextWithinDocument_inv:
  assumes "line pos < lineCount d"
  shows "\<exists>r. getSemanticContextWithinDocument d pos k = Inr r
            \<and> searchInv d (docLines d ! line pos) k (Suc (lineCount d) - k) r"
  using assms searchLoop_inv [OF searchInv_initial, of "Finite 0" d k "docLines d ! line pos"]
  by (simp add: getSemanticContextWithinDocument_def lineAt_def)

lemma isCandidate_less: "isCandidate d k i \<longleftrightarrow> i < Suc (lineCount d) - k"
  by (auto simp: isCandidate_def)

text \<open>
  C3. When the line of the cursor exists, the search returns a result. The aggregate score
  of the candidate block at start index \<open>i\<close> (\<open>i + k \<le> lineCount\<close>) is
  \<open>blockScore\<close>: the sum, from 0 and from the left, of the similarities of the current
  line to the \<open>k\<close> lines of the block, each addition rounded as the host rounds it. No
  candidate block has an aggregate score that exceeds the returned score. If some
  candidate's score exceeds 0, the result is one of the candidate blocks, \<open>k\<close> consecutive
  lines of the document, with its aggregate score; if none does, in particular if
  \<open>lineCount < k\<close>, the result is the empty block with score 0.
\<close>

theorem semantic_search_maximal:
  assumes "lineAt d (line pos) = Inr cur"
  shows "\<exists>r. getSemanticContextWithinDocument d pos k = Inr r
     \<and> (\<forall>i. isCandidate d k i \<longrightarrow> \<not> gtNumber (blockScore d cur k i) (similarityScore r))
     \<and> ((\<exists>i. isCandidate d k i \<and> gtNumber (blockScore d cur k i) (Finite 0)) \<longrightarrow>
          (\<exists>i. isCandidate d k i \<and> semanticContext r = candidateBlock d i k
              \<and> length (semanticContext r) = k
              \<and> similarityScore r = blockScore d cur k i))
     \<and> (\<not> (\<exists>i. isCandidate d k i \<and> gtNumber (blockScore d cur k i) (Finite 0)) \<longrightarrow>
          r = \<lparr>semanticContext = [], similarityScore = Finite 0\<rparr>)
     \<and> (lineCount d < k \<longrightarrow> r = \<lparr>semanticContext = [], similarityScore = Finite 0\<rparr>)"
proof -
  have valid: "line pos < lineCount d" and cur: "cur = docLines d ! line pos"
    using assms by (auto simp: lineAt_def split: if_splits)
  obtain r where r: "getSemanticContextWithinDocument d pos k = Inr r"
    and inv: "searchInv d cur k (Suc (lineCount d) - k) r"
    using getSemanticContextWithinDocument_inv [OF valid, of k] cur by blast
  have a: "\<forall>i. isCandidate d k i \<longrightarrow> \<not> gtNumber (blockScore d cur k i) (similarityScore r)"
    using inv by (simp add: searchInv_def isCandidate_less)
  from inv consider
      (empty) "r = \<lparr>semanticContext = [], similarityScore = Finite 0\<rparr>"
        "\<forall>j. isCandidate d k j \<longrightarrow> \<not> gtNumber (blockScore d cur k j) (Finite 0)"
    | (block) i0 where "isCandidate d k i0"
        "r = \<lparr>semanticContext = candidateBlock d i0 k, similarityScore = blockScore d cur k i0\<rparr>"
        "gtNumber (blockScore d cur k i0) (Finite 0)"
    by (auto simp: searchInv_def isCandidate_less)
  then have b: "((\<exists>i. isCandidate d k i \<and> gtNumber (blockScore d cur k i) (Finite 0)) \<longrightarrow>
          (\<exists>i. isCandidate d k i \<and> semanticContext r = candidateBlock d i k
              \<and> length (semanticContext r) = k
              \<and> similarityScore r = blockScore d cur k i))
     \<and> (\<not> (\<exists>i. isCandidate d k i \<and> gtNumber (blockScore d cur k i) (Finite 0)) \<longrightarrow>
          r = \<lparr>semanticContext = [], similarityScore = Finite 0\<rparr>)"
  proof cases
    case empty
    then show ?thesis by blast
  next
    case block
    have "length (candidateBlock d i0 k) = k"
      using block(1) by (simp add: candidateBlock_def isCandidate_def lineCount_def)
    then show ?thesis using block by auto
  qed
  have c: "lineCount d < k \<longrightarrow> r = \<lparr>semanticContext = [], similarityScore = Finite 0\<rparr>"
    using b by (auto simp: isCandidate_def)
  show ?thesis using r a b c by blast
qed

theorem semantic_search_maximal_witness:
  "lineAt smallNearTieDocument (line \<lparr>line = 2, character = 0\<rparr>) = Inr ''aaa''
   \<and> isCandidate smallNearTieDocument 3 0 \<and> isCandidate smallNearTieDocument 3 1
   \<and> \<not> isCandidate smallNearTieDocument 3 2
   \<and> blockScore smallNearTieDocument ''aaa'' 3 0 = Finite (7505999378950827 / 4503599627370496)
   \<and> blockScore smallNearTieDocument ''aaa'' 3 1 = Finite (1876499844737707 / 1125899906842624)
   \<and> gtNumber (blockScore smallNearTieDocument ''aaa'' 3 1)
         (blockScore smallNearTieDocument ''aaa'' 3 0)
   \<and> gtNumber (blockScore smallNearTieDocument ''aaa'' 3 0) (Finite 0)
   \<and> (\<exists>r i. getSemanticContextWithinDocument smallNearTieDocument \<lparr>line = 2, character = 0\<rparr> 3
                = Inr r
        \<and> isCandidate smallNearTieDocument 3 i
        \<and> semanticContext r = candidateBlock smallNearTieDocument i 3
        \<and> length (semanticContext r) = 3
        \<and> similarityScore r = blockScore smallNearTieDocument ''aaa'' 3 i
        \<and> \<not> gtNumber (blockScore smallNearTieDocument ''aaa'' 3 0) (similarityScore r)
        \<and> \<not> gtNumber (blockScore smallNearTieDocument ''aaa'' 3 1) (similarityScore r))
   \<and> getSemanticContextWithinDocument smallNearTieDocument \<lparr>line = 2, character = 0\<rparr> 3
       = Inr \<lparr>semanticContext = [''a'', ''aaa'', ''a''],
              similarityScore = Finite (1876499844737707 / 1125899906842624)\<rparr>
   \<and> lineCount emptyDocument < 5
   \<and> getSemanticContextWithinDocument emptyDocument \<lparr>line = 0, character = 0\<rparr> 5
       = Inr \<lparr>semanticContext = [], similarityScore = Finite 0\<rparr>"
proof -
  have l: "lineAt smallNearTieDocument (line \<lparr>line = 2, character = 0\<rparr>) = Inr ''aaa''"
    by code_simp
  have c0: "isCandidate smallNearTieDocument 3 0" by code_simp
  have c1: "isCandidate smallNearTieDocument 3 1" by code_simp
  have c2: "\<not> isCandidate smallNearTieDocument 3 2" by code_simp
  have s0: "blockScore smallNearTieDocument ''aaa'' 3 0
              = Finite (7505999378950827 / 4503599627370496)" by code_simp
  have s1: "blockScore smallNearTieDocument ''aaa'' 3 1
              = Finite (1876499844737707 / 1125899906842624)" by code_simp
  have g1: "gtNumber (blockScore smallNearTieDocument ''aaa'' 3 1)
              (blockScore smallNearTieDocument ''aaa'' 3 0)"
    unfolding s0 s1 by simp
  have g0: "gtNumber (blockScore smallNearTieDocument ''aaa'' 3 0) (Finite 0)"
    unfolding s0 by simp
  have e: "getSemanticContextWithinDocument smallNearTieDocument \<lparr>line = 2, character = 0\<rparr> 3
       = Inr \<lparr>semanticContext = [''a'', ''aaa'', ''a''],
              similarityScore = Finite (1876499844737707 / 1125899906842624)\<rparr>"
    by code_simp
  have le: "lineAt emptyDocument (line \<lparr>line = 0, character = 0\<rparr>) = Inr []"
    by code_simp
  have n: "lineCount emptyDocument < 5" by code_simp
  have ee: "getSemanticContextWithinDocument emptyDocument \<lparr>line = 0, character = 0\<rparr> 5
       = Inr \<lparr>semanticContext = [], similarityScore = Finite 0\<rparr>"
    using semantic_search_maximal [OF le, of 5] n by auto
  have "\<exists>r i. getSemanticContextWithinDocument smallNearTieDocument \<lparr>line = 2, character = 0\<rparr> 3
                = Inr r
        \<and> isCandidate smallNearTieDocument 3 i
        \<and> semanticContext r = candidateBlock smallNearTieDocument i 3
        \<and> length (semanticContext r) = 3
        \<and> similarityScore r = blockScore smallNearTieDocument ''aaa'' 3 i
        \<and> \<not> gtNumber (blockScore smallNearTieDocument ''aaa'' 3 0) (similarityScore r)
        \<and> \<not> gtNumber (blockScore smallNearTieDocument ''aaa'' 3 1) (similarityScore r)"
    using semantic_search_maximal [OF l, of 3] c0 c1 g0 by blast
  then show ?thesis
    using l c0 c1 c2 s0 s1 g1 g0 e n ee by blast
qed

text \<open>
  C4. The claim fails when the maximal score is 0. The cursor is on a blank line; the
  block that contains it has no score (\<open>NaN\<close>), the two other candidate blocks both score
  0, and the result is the empty block, not the block at start index 1.
\<close>

theorem semantic_search_tie_counterexample:
  "getSemanticContextWithinDocument blankLineDocument \<lparr>line = 0, character = 0\<rparr> 5
     = Inr \<lparr>semanticContext = [], similarityScore = Finite 0\<rparr>
   \<and> lineAt blankLineDocument 0 = Inr []
   \<and> isCandidate blankLineDocument 5 0 \<and> isCandidate blankLineDocument 5 1
   \<and> isCandidate blankLineDocument 5 2 \<and> \<not> isCandidate blankLineDocument 5 3
   \<and> blockScore blankLineDocument [] 5 0 = NaN
   \<and> blockScore blankLineDocument [] 5 1 = Finite 0
   \<and> blockScore blankLineDocument [] 5 2 = Finite 0
   \<and> candidateBlock blankLineDocument 1 5 = [''b'', ''b'', ''b'', ''b'', ''b'']"
  by code_simp

text \<open>
  C4, amended. The aggregate score of a candidate block is \<open>blockScore\<close>, the rounded
  sum the code computes. When some candidate block's aggregate score exceeds 0, the
  result is the candidate block with the smallest start index among those that achieve the
  maximal aggregate score: no candidate's score exceeds the returned one, and every
  candidate with the returned score starts at or after the returned block. When no
  candidate's score exceeds 0, the result is the empty block with score 0.
\<close>

theorem semantic_search_first_maximal:
  assumes "lineAt d (line pos) = Inr cur"
  shows "\<exists>r. getSemanticContextWithinDocument d pos k = Inr r
     \<and> ((\<exists>i. isCandidate d k i \<and> gtNumber (blockScore d cur k i) (Finite 0)) \<longrightarrow>
          (\<exists>i0. isCandidate d k i0
             \<and> semanticContext r = candidateBlock d i0 k
             \<and> similarityScore r = blockScore d cur k i0
             \<and> (\<forall>j. isCandidate d k j \<longrightarrow>
                    \<not> gtNumber (blockScore d cur k j) (blockScore d cur k i0))
             \<and> (\<forall>j. isCandidate d k j \<and> blockScore d cur k j = blockScore d cur k i0
                    \<longrightarrow> i0 \<le> j)))
     \<and> (\<not> (\<exists>i. isCandidate d k i \<and> gtNumber (blockScore d cur k i) (Finite 0)) \<longrightarrow>
          r = \<lparr>semanticContext = [], similarityScore = Finite 0\<rparr>)"
proof -
  have valid: "line pos < lineCount d" and cur: "cur = docLines d ! line pos"
    using assms(1) by (auto simp: lineAt_def split: if_splits)
  obtain r where r: "getSemanticContextWithinDocument d pos k = Inr r"
    and inv: "searchInv d cur k (Suc (lineCount d) - k) r"
    using getSemanticContextWithinDocument_inv [OF valid, of k] cur by blast
  have some: "\<exists>i0. isCandidate d k i0
             \<and> semanticContext r = candidateBlock d i0 k
             \<and> similarityScore r = blockScore d cur k i0
             \<and> (\<forall>j. isCandidate d k j \<longrightarrow>
                    \<not> gtNumber (blockScore d cur k j) (blockScore d cur k i0))
             \<and> (\<forall>j. isCandidate d k j \<and> blockScore d cur k j = blockScore d cur k i0
                    \<longrightarrow> i0 \<le> j)"
    if ex: "\<exists>i. isCandidate d k i \<and> gtNumber (blockScore d cur k i) (Finite 0)"
  proof -
    have "\<not> (\<forall>j<Suc (lineCount d) - k. \<not> gtNumber (blockScore d cur k j) (Finite 0))"
      using ex by (auto simp: isCandidate_less)
    then obtain i0 where i0: "i0 < Suc (lineCount d) - k"
        "r = \<lparr>semanticContext = candidateBlock d i0 k, similarityScore = blockScore d cur k i0\<rparr>"
        "\<forall>j<i0. blockScore d cur k j \<noteq> blockScore d cur k i0"
      using inv unfolding searchInv_def by blast
    have m: "\<forall>j. isCandidate d k j \<longrightarrow>
               \<not> gtNumber (blockScore d cur k j) (blockScore d cur k i0)"
      using inv i0(2) by (simp add: searchInv_def isCandidate_less)
    have f: "\<forall>j. isCandidate d k j \<and> blockScore d cur k j = blockScore d cur k i0 \<longrightarrow> i0 \<le> j"
      using i0(3) by (meson not_le)
    show ?thesis
      using i0(1,2) m f by (auto simp: isCandidate_less)
  qed
  have none: "r = \<lparr>semanticContext = [], similarityScore = Finite 0\<rparr>"
    if no: "\<not> (\<exists>i. isCandidate d k i \<and> gtNumber (blockScore d cur k i) (Finite 0))"
    using inv no unfolding searchInv_def isCandidate_less by blast
  show ?thesis using r some none by blast
qed

theorem semantic_search_first_maximal_witness:
  "lineAt specDocument (line \<lparr>line = 0, character = 3\<rparr>) = Inr ''foo''
   \<and> isCandidate specDocument 2 3
   \<and> gtNumber (blockScore specDocument ''foo'' 2 3) (Finite 0)
   \<and> blockScore specDocument ''foo'' 2 0 = blockScore specDocument ''foo'' 2 3
   \<and> (\<exists>r i0. getSemanticContextWithinDocument specDocument \<lparr>line = 0, character = 3\<rparr> 2 = Inr r
        \<and> isCandidate specDocument 2 i0
        \<and> semanticContext r = candidateBlock specDocument i0 2
        \<and> similarityScore r = blockScore specDocument ''foo'' 2 i0
        \<and> (\<forall>j. isCandidate specDocument 2 j \<and>
                 blockScore specDocument ''foo'' 2 j = blockScore specDocument ''foo'' 2 i0
                 \<longrightarrow> i0 \<le> j))
   \<and> getSemanticContextWithinDocument specDocument \<lparr>line = 0, character = 3\<rparr> 2
       = Inr \<lparr>semanticContext = [''foo'', ''bar''], similarityScore = Finite 1\<rparr>
   \<and> candidateBlock specDocument 0 2 = [''foo'', ''bar'']
   \<and> candidateBlock specDocument 3 2 = [''foo'', ''qux'']
   \<and> lineAt blankLineDocument (line \<lparr>line = 0, character = 0\<rparr>) = Inr []
   \<and> \<not> gtNumber (blockScore blankLineDocument [] 5 0) (Finite 0)
   \<and> \<not> gtNumber (blockScore blankLineDocument [] 5 1) (Finite 0)
   \<and> \<not> gtNumber (blockScore blankLineDocument [] 5 2) (Finite 0)
   \<and> \<not> isCandidate blankLineDocument 5 3
   \<and> getSemanticContextWithinDocument blankLineDocument \<lparr>line = 0, character = 0\<rparr> 5
       = Inr \<lparr>semanticContext = [], similarityScore = Finite 0\<rparr>
   \<and> blockScore nearTieDocument ''aaaaa'' 5 0 = Finite (4315949642896725 / 1125899906842624)
   \<and> blockScore nearTieDocument ''aaaaa'' 5 1 = Finite (2157974821448363 / 562949953421312)
   \<and> (\<exists>r. getSemanticContextWithinDocument nearTieDocument \<lparr>line = 2, character = 0\<rparr> 5
               = Inr r
         \<and> semanticContext r = [''aaaaaa'', ''aaaaa'', ''aaaa'', ''aaaaa'', ''a'']
         \<and> similarityScore r = Finite (2157974821448363 / 562949953421312))"
proof -
  have ln: "lineAt nearTieDocument (line \<lparr>line = 2, character = 0\<rparr>) = Inr ''aaaaa''"
    by code_simp
  have n0: "blockScore nearTieDocument ''aaaaa'' 5 0
              = Finite (4315949642896725 / 1125899906842624)" by code_simp
  have n1: "blockScore nearTieDocument ''aaaaa'' 5 1
              = Finite (2157974821448363 / 562949953421312)" by code_simp
  have nc: "lineCount nearTieDocument = 6" by code_simp
  have nb: "candidateBlock nearTieDocument 1 5 = [''aaaaaa'', ''aaaaa'', ''aaaa'', ''aaaaa'', ''a'']"
    by code_simp
  have nc1: "isCandidate nearTieDocument 5 1" by code_simp
  have ng: "gtNumber (blockScore nearTieDocument ''aaaaa'' 5 1) (Finite 0)"
    unfolding n1 by simp
  obtain rn i0 where rn:
      "getSemanticContextWithinDocument nearTieDocument \<lparr>line = 2, character = 0\<rparr> 5 = Inr rn"
      "isCandidate nearTieDocument 5 i0"
      "semanticContext rn = candidateBlock nearTieDocument i0 5"
      "similarityScore rn = blockScore nearTieDocument ''aaaaa'' 5 i0"
      "\<forall>j. isCandidate nearTieDocument 5 j \<longrightarrow>
             \<not> gtNumber (blockScore nearTieDocument ''aaaaa'' 5 j)
                 (blockScore nearTieDocument ''aaaaa'' 5 i0)"
    using semantic_search_first_maximal [OF ln, of 5] nc1 ng by blast
  have "i0 = 0 \<or> i0 = 1" using rn(2) nc by (auto simp: isCandidate_def)
  moreover have "i0 \<noteq> 0"
  proof
    assume "i0 = 0"
    then have "\<not> gtNumber (blockScore nearTieDocument ''aaaaa'' 5 1)
                   (blockScore nearTieDocument ''aaaaa'' 5 0)"
      using rn(5) nc1 by blast
    then show False unfolding n0 n1 by simp
  qed
  ultimately have "i0 = 1" by blast
  then have en: "\<exists>r. getSemanticContextWithinDocument nearTieDocument
                     \<lparr>line = 2, character = 0\<rparr> 5 = Inr r
         \<and> semanticContext r = [''aaaaaa'', ''aaaaa'', ''aaaa'', ''aaaaa'', ''a'']
         \<and> similarityScore r = Finite (2157974821448363 / 562949953421312)"
    using rn(1,3,4) nb n1 by auto
  have l: "lineAt specDocument (line \<lparr>line = 0, character = 3\<rparr>) = Inr ''foo''"
    by code_simp
  have c: "isCandidate specDocument 2 3" by code_simp
  have g: "gtNumber (blockScore specDocument ''foo'' 2 3) (Finite 0)" by code_simp
  have t: "blockScore specDocument ''foo'' 2 0 = blockScore specDocument ''foo'' 2 3"
    by code_simp
  have e: "getSemanticContextWithinDocument specDocument \<lparr>line = 0, character = 3\<rparr> 2
       = Inr \<lparr>semanticContext = [''foo'', ''bar''], similarityScore = Finite 1\<rparr>"
    by code_simp
  have b0: "candidateBlock specDocument 0 2 = [''foo'', ''bar'']" by code_simp
  have b3: "candidateBlock specDocument 3 2 = [''foo'', ''qux'']" by code_simp
  have lb: "lineAt blankLineDocument (line \<lparr>line = 0, character = 0\<rparr>) = Inr []"
    by code_simp
  have z0: "\<not> gtNumber (blockScore blankLineDocument [] 5 0) (Finite 0)" by code_simp
  have z1: "\<not> gtNumber (blockScore blankLineDocument [] 5 1) (Finite 0)" by code_simp
  have z2: "\<not> gtNumber (blockScore blankLineDocument [] 5 2) (Finite 0)" by code_simp
  have z3: "\<not> isCandidate blankLineDocument 5 3" by code_simp
  have lc: "lineCount blankLineDocument = 7" by code_simp
  have "\<not> (\<exists>i. isCandidate blankLineDocument 5 i
              \<and> gtNumber (blockScore blankLineDocument [] 5 i) (Finite 0))"
  proof
    assume "\<exists>i. isCandidate blankLineDocument 5 i
              \<and> gtNumber (blockScore blankLineDocument [] 5 i) (Finite 0)"
    then obtain i where i: "isCandidate blankLineDocument 5 i"
        "gtNumber (blockScore blankLineDocument [] 5 i) (Finite 0)" by blast
    then have "i = 0 \<or> i = 1 \<or> i = 2" using lc by (auto simp: isCandidate_def)
    then show False using i(2) z0 z1 z2 by blast
  qed
  then have eb: "getSemanticContextWithinDocument blankLineDocument \<lparr>line = 0, character = 0\<rparr> 5
       = Inr \<lparr>semanticContext = [], similarityScore = Finite 0\<rparr>"
    using semantic_search_first_maximal [OF lb, of 5] by auto
  have "\<exists>r i0. getSemanticContextWithinDocument specDocument \<lparr>line = 0, character = 3\<rparr> 2 = Inr r
        \<and> isCandidate specDocument 2 i0
        \<and> semanticContext r = candidateBlock specDocument i0 2
        \<and> similarityScore r = blockScore specDocument ''foo'' 2 i0
        \<and> (\<forall>j. isCandidate specDocument 2 j \<and>
                 blockScore specDocument ''foo'' 2 j = blockScore specDocument ''foo'' 2 i0
                 \<longrightarrow> i0 \<le> j)"
    using semantic_search_first_maximal [OF l, of 2] c g by blast
  then show ?thesis
    using l c g t e b0 b3 lb z0 z1 z2 z3 eb n0 n1 en by blast
qed

text \<open>
  C10. The candidate blocks are not kept away from the cursor: in the five-line example
  document with the cursor on its third line, the returned block is the whole document
  and contains the line of the cursor.
\<close>

theorem semantic_context_contains_current_line:
  "getSemanticContextWithinDocument exampleDocument (position exampleParams) 5
     = Inr \<lparr>semanticContext = [''abc'', ''de'', ''fgh'', ''i'', ''jkl''],
            similarityScore = Finite 1\<rparr>
   \<and> lineAt exampleDocument (line (position exampleParams)) = Inr ''fgh''
   \<and> ''fgh'' \<in> set [''abc'', ''de'', ''fgh'', ''i'', ''jkl'']
   \<and> getCurrentDocContext exampleEnv exampleParams = Inr exampleResult
   \<and> semanticContextText exampleResult = joinNewline [''abc'', ''de'', ''fgh'', ''i'', ''jkl'']"
  by code_simp

section \<open>Offsets and positions of the document\<close>

lemma length_joinNewline:
  "ls \<noteq> [] \<Longrightarrow> Suc (length (joinNewline ls)) = sum_list (map (\<lambda>l. length l + 1) ls)"
proof (induction ls)
  case Nil
  then show ?case by simp
next
  case (Cons l ls)
  then show ?case by (cases ls) auto
qed

lemma lineStart_mono:
  "a \<le> b \<Longrightarrow> sum_list (map (\<lambda>l. length l + 1) (take a ls))
             \<le> sum_list (map (\<lambda>l. length l + (1::nat)) (take b ls))"
proof -
  assume "a \<le> b"
  then have "take b ls = take a ls @ take (b - a) (drop a ls)"
    by (metis le_add_diff_inverse take_add)
  then show ?thesis by simp
qed

lemma lineStart_Suc:
  "m < length ls \<Longrightarrow> sum_list (map (\<lambda>l. length l + 1) (take (Suc m) ls))
     = sum_list (map (\<lambda>l. length l + 1) (take m ls)) + length (ls ! m) + 1"
  by (simp add: take_Suc_conv_app_nth)

lemma lineEnd_le_length:
  assumes "m < length ls"
  shows "sum_list (map (\<lambda>l. length l + 1) (take m ls)) + length (ls ! m) \<le> length (joinNewline ls)"
proof -
  have ne: "ls \<noteq> []" using assms by auto
  have "sum_list (map (\<lambda>l. length l + 1) (take (Suc m) ls))
          \<le> sum_list (map (\<lambda>l. length l + 1) (take (length ls) ls))"
    using assms by (intro lineStart_mono) simp
  then show ?thesis
    using lineStart_Suc [OF assms] length_joinNewline [OF ne] by simp
qed

lemma offsetAt_le_length: "offsetAt d p \<le> length (getText d)"
proof (cases "line p < length (docLines d)")
  case True
  then show ?thesis
    using lineEnd_le_length [OF True]
    by (simp add: offsetAt_def getText_def Let_def min_def)
next
  case False
  then show ?thesis by (simp add: offsetAt_def Let_def)
qed

lemma offsetAt_origin: "offsetAt d \<lparr>line = 0, character = 0\<rparr> = 0"
  by (simp add: offsetAt_def getText_def Let_def)

lemma offsetAt_mono:
  assumes "\<not> isBefore p q"
  shows "offsetAt d q \<le> offsetAt d p"
proof -
  let ?ls = "docLines d"
  let ?S = "\<lambda>m. sum_list (map (\<lambda>l. length l + 1) (take m ?ls))"
  from assms consider
      (same) "line q = line p" "character q \<le> character p"
    | (earlier) "line q < line p"
    unfolding isBefore_def by linarith
  then show ?thesis
  proof cases
    case same
    then show ?thesis by (simp add: offsetAt_def Let_def min_def)
  next
    case earlier
    show ?thesis
    proof (cases "line p < length ?ls")
      case False
      then have "offsetAt d p = length (getText d)" by (simp add: offsetAt_def Let_def)
      then show ?thesis using offsetAt_le_length [of d q] by simp
    next
      case True
      then have q: "line q < length ?ls" using earlier by simp
      have "offsetAt d q \<le> ?S (line q) + length (?ls ! line q)"
        using q by (simp add: offsetAt_def Let_def)
      also have "\<dots> \<le> ?S (Suc (line q))" using lineStart_Suc [OF q] by simp
      also have "\<dots> \<le> ?S (line p)" using earlier by (intro lineStart_mono) simp
      also have "\<dots> \<le> offsetAt d p" using True by (simp add: offsetAt_def Let_def)
      finally show ?thesis .
    qed
  qed
qed

lemma offsetAt_offsetIn: "offsetAt d p = offsetIn (docLines d) (line p) (character p)"
  by (simp add: offsetAt_def offsetIn_def getText_def Let_def)

lemma offsetIn_Suc:
  "ls \<noteq> [] \<Longrightarrow> offsetIn (l # ls) (Suc m) c = length l + 1 + offsetIn ls m c"
  by (simp add: offsetIn_def joinNewline_Cons)

lemma positionAtFrom_offset:
  "n \<le> line (positionAtFrom ls n off)
   \<and> offsetIn ls (line (positionAtFrom ls n off) - n) (character (positionAtFrom ls n off))
       = min off (length (joinNewline ls))"
proof (induction ls n off rule: positionAtFrom.induct)
  case (1 n off)
  show ?case by (simp add: offsetIn_def)
next
  case (2 l n off)
  show ?case by (simp add: offsetIn_def)
next
  case (3 l l' ls n off)
  show ?case
  proof (cases "off \<le> length l")
    case True
    then show ?thesis by (simp add: offsetIn_def)
  next
    case False
    let ?rest = "l' # ls"
    let ?p = "positionAtFrom ?rest (Suc n) (off - length l - 1)"
    have IH1: "Suc n \<le> line ?p"
      and IH2: "offsetIn ?rest (line ?p - Suc n) (character ?p)
                  = min (off - length l - 1) (length (joinNewline ?rest))"
      using "3.IH" [OF False] by blast+
    have eq: "positionAtFrom (l # ?rest) n off = ?p" using False by simp
    have m: "line ?p - n = Suc (line ?p - Suc n)" using IH1 by simp
    have "offsetIn (l # ?rest) (line ?p - n) (character ?p)
            = length l + 1 + offsetIn ?rest (line ?p - Suc n) (character ?p)"
      unfolding m by (rule offsetIn_Suc) simp
    also have "\<dots> = length l + 1 + min (off - length l - 1) (length (joinNewline ?rest))"
      using IH2 by simp
    also have "\<dots> = min off (length (joinNewline (l # ?rest)))"
    proof -
      have "length (joinNewline (l # ?rest)) = length l + 1 + length (joinNewline ?rest)"
        by simp
      then show ?thesis using False by (simp only: min_def) arith
    qed
    finally show ?thesis unfolding eq using IH1 by simp
  qed
qed

lemma offsetAt_positionAt:
  "offsetAt d (positionAt d off) = min (nat off) (length (getText d))"
proof -
  have "nat (max 0 off) = nat off" by simp
  then show ?thesis
    using positionAtFrom_offset [of 0 "docLines d" "nat off"]
    by (simp add: offsetAt_offsetIn positionAt_def getText_def)
qed

lemma not_isBefore_refl: "\<not> isBefore p p"
  by (simp add: isBefore_def)

lemma positionAtFrom_line_ge: "n \<le> line (positionAtFrom ls n off)"
  using positionAtFrom_offset [of n ls off] by simp

lemma positionAtFrom_mono:
  "a \<le> b \<Longrightarrow> isBefore (positionAtFrom ls n a) (positionAtFrom ls n b)
             \<or> positionAtFrom ls n a = positionAtFrom ls n b"
proof (induction ls n a arbitrary: b rule: positionAtFrom.induct)
  case (1 n off)
  show ?case by simp
next
  case (2 l n off)
  then show ?case by (auto simp: isBefore_def min_def)
next
  case (3 l l' ls n off)
  show ?case
  proof (cases "off \<le> length l")
    case False
    then have "\<not> b \<le> length l" using "3.prems" by simp
    moreover have "off - length l - 1 \<le> b - length l - 1" using "3.prems" by simp
    ultimately show ?thesis using "3.IH" [OF False] False by simp
  next
    case True
    show ?thesis
    proof (cases "b \<le> length l")
      case True
      then show ?thesis using \<open>off \<le> length l\<close> "3.prems" by (auto simp: isBefore_def)
    next
      case False
      have "Suc n \<le> line (positionAtFrom (l' # ls) (Suc n) (b - length l - 1))"
        by (rule positionAtFrom_line_ge)
      then show ?thesis using True False by (simp add: isBefore_def)
    qed
  qed
qed

lemma mkRange_ordered:
  "isBefore a b \<or> a = b \<Longrightarrow> mkRange a b = \<lparr>rangeStart = a, rangeEnd = b\<rparr>"
  by (auto simp: mkRange_def not_isBefore_refl)

lemma mkRange_positionAt:
  "a \<le> b \<Longrightarrow> mkRange (positionAt d a) (positionAt d b)
     = \<lparr>rangeStart = positionAt d a, rangeEnd = positionAt d b\<rparr>"
  unfolding positionAt_def
  by (intro mkRange_ordered positionAtFrom_mono) simp

lemma completePrefix_take: "completePrefix d pos = take (offsetAt d pos) (getText d)"
proof (cases "isBefore \<lparr>line = 0, character = 0\<rparr> pos")
  case True
  then show ?thesis
    by (simp add: completePrefix_def mkRange_def getTextRange_def offsetAt_origin)
next
  case False
  then have "pos = \<lparr>line = 0, character = 0\<rparr>" by (cases pos) (simp add: isBefore_def)
  then show ?thesis
    by (simp add: completePrefix_def mkRange_def getTextRange_def offsetAt_origin not_isBefore_refl)
qed

lemma completeSuffix_drop: "completeSuffix d pos = drop (offsetAt d pos) (getText d)"
proof -
  let ?endp = "positionAt d (int (length (getText d)))"
  have e: "offsetAt d ?endp = length (getText d)"
    by (simp add: offsetAt_positionAt)
  show ?thesis
  proof (cases "isBefore pos ?endp")
    case True
    then show ?thesis
      by (simp add: completeSuffix_def mkRange_def getTextRange_def e)
  next
    case False
    then have "length (getText d) \<le> offsetAt d pos" using offsetAt_mono [OF False, of d] e by simp
    then show ?thesis using False
      by (simp add: completeSuffix_def mkRange_def getTextRange_def e)
  qed
qed

lemma length_completePrefix: "length (completePrefix d pos) = offsetAt d pos"
  using offsetAt_le_length [of d pos] by (simp add: completePrefix_take)

lemma prefix_joinNewline_take: "Sublist.prefix (joinNewline (take n ls)) (joinNewline ls)"
proof (induction ls arbitrary: n)
  case Nil
  show ?case by simp
next
  case (Cons l ls)
  show ?case
  proof (cases n)
    case 0
    then show ?thesis by simp
  next
    case (Suc m)
    show ?thesis
    proof (cases "take m ls = []")
      case True
      then show ?thesis using Suc by (cases ls) (auto simp: Sublist.prefix_def)
    next
      case False
      then have ne: "ls \<noteq> []" by auto
      show ?thesis
        using Cons.IH [of m] Suc False ne by (simp add: joinNewline_Cons)
    qed
  qed
qed

lemma suffixOf_prefix: "Sublist.prefix (suffixOf (lines s) mx) s"
  using prefix_joinNewline_take [of _ "lines s"] by (simp add: suffixOf_def joinNewline_lines)

section \<open>The range of the context\<close>

lemma suffix_within_document:
  assumes "getCurrentDocContext env params = Inr r"
  shows "suffix r = take (length (suffix r)) (drop (cursorOffset params) (getText (document params)))"
    and "cursorOffset params + length (suffix r) \<le> length (getText (document params))"
proof -
  have "Sublist.prefix (suffix r) (drop (cursorOffset params) (getText (document params)))"
    using getCurrentDocContext_fields(2) [OF assms] suffixOf_prefix
    by (simp add: suffixLines_def completeSuffix_drop cursorOffset_def)
  then obtain zs where zs: "drop (cursorOffset params) (getText (document params)) = suffix r @ zs"
    by (auto simp: Sublist.prefix_def)
  show "suffix r = take (length (suffix r)) (drop (cursorOffset params) (getText (document params)))"
    unfolding zs by simp
  have "length (suffix r) \<le> length (drop (cursorOffset params) (getText (document params)))"
    unfolding zs by simp
  moreover have "cursorOffset params \<le> length (getText (document params))"
    by (simp add: cursorOffset_def offsetAt_le_length)
  ultimately show "cursorOffset params + length (suffix r) \<le> length (getText (document params))"
    by simp
qed

lemma prefix_within_document:
  assumes "getCurrentDocContext env params = Inr r"
    and "selectedInfo (completionContext params) = None"
  shows "length (prefix r) \<le> cursorOffset params"
    and "prefix r = drop (cursorOffset params - length (prefix r))
                      (take (cursorOffset params) (getText (document params)))"
proof -
  have patched: "completePrefixWithContextCompletion (document params) (position params)
                   (completionContext params)
                 = take (cursorOffset params) (getText (document params))"
    using assms(2)
    by (simp add: completePrefixWithContextCompletion_def completePrefix_take cursorOffset_def)
  have "Sublist.suffix (prefix r) (take (cursorOffset params) (getText (document params)))"
    using getCurrentDocContext_fields(1) [OF assms(1)] prefixOf_suffix
    by (simp add: prefixLines_def patched)
  then obtain ys where ys: "take (cursorOffset params) (getText (document params)) = ys @ prefix r"
    by (auto simp: Sublist.suffix_def)
  have len: "length (take (cursorOffset params) (getText (document params))) = cursorOffset params"
    by (simp add: cursorOffset_def offsetAt_le_length)
  then have l: "length ys + length (prefix r) = cursorOffset params"
    unfolding ys by simp
  then show "length (prefix r) \<le> cursorOffset params" by simp
  have "cursorOffset params - length (prefix r) = length ys" using l by simp
  then show "prefix r = drop (cursorOffset params - length (prefix r))
                      (take (cursorOffset params) (getText (document params)))"
    unfolding ys by simp
qed

lemma contextRange_ends:
  assumes "getCurrentDocContext env params = Inr r"
  shows "contextRange r =
           \<lparr>rangeStart = positionAt (document params)
                           (int (cursorOffset params) - int (length (prefix r))),
            rangeEnd = positionAt (document params)
                         (int (cursorOffset params) + int (length (suffix r)))\<rparr>"
  using getCurrentDocContext_fields(4) [OF assms]
  by (simp add: mkRange_positionAt)

text \<open>
  C1. The claim fails when the selected completion makes the prefix longer than the text
  before the cursor: the document is \<open>ab\<close>, the cursor is at offset 2 and the prefix is
  \<open>abcdef\<close>; the start of the range is the position of the negative offset \<open>2 - 6\<close>,
  which is the start of the document, and the range spans 2 characters, not 6.
\<close>

theorem contextRange_span_counterexample:
  "getCurrentDocContext exampleEnv (widgetParams 100) = Inr (widgetResult ''abcdef'' 0)
   \<and> cursorOffset (widgetParams 100) = 2
   \<and> length (prefix (widgetResult ''abcdef'' 0)) + length (suffix (widgetResult ''abcdef'' 0)) = 6
   \<and> contextRange (widgetResult ''abcdef'' 0)
       = \<lparr>rangeStart = \<lparr>line = 0, character = 0\<rparr>, rangeEnd = \<lparr>line = 0, character = 2\<rparr>\<rparr>
   \<and> offsetAt widgetDocument (rangeEnd (contextRange (widgetResult ''abcdef'' 0)))
       - offsetAt widgetDocument (rangeStart (contextRange (widgetResult ''abcdef'' 0))) = 2"
  by code_simp

text \<open>
  C1, amended. The start of the range is the position of the offset
  \<open>offset - prefix.length\<close> and its end the position of \<open>offset + suffix.length\<close>, where
  the position of a negative offset is the start of the document. The end lies
  \<open>suffix.length\<close> characters after the cursor. Whenever the prefix is not longer than the
  offset of the cursor, the start lies \<open>prefix.length\<close> characters before the cursor and
  the range spans exactly \<open>prefix.length + suffix.length\<close> characters. Without a selected
  completion this is always so, and the text of the range is the prefix followed by the
  suffix.
\<close>

theorem contextRange_span:
  assumes "getCurrentDocContext env params = Inr r"
  shows "rangeStart (contextRange r)
           = positionAt (document params) (int (cursorOffset params) - int (length (prefix r)))
       \<and> rangeEnd (contextRange r)
           = positionAt (document params) (int (cursorOffset params) + int (length (suffix r)))
       \<and> offsetAt (document params) (rangeEnd (contextRange r))
           = cursorOffset params + length (suffix r)
       \<and> (length (prefix r) \<le> cursorOffset params \<longrightarrow>
            offsetAt (document params) (rangeStart (contextRange r))
              = cursorOffset params - length (prefix r)
            \<and> offsetAt (document params) (rangeEnd (contextRange r))
                - offsetAt (document params) (rangeStart (contextRange r))
              = length (prefix r) + length (suffix r))
       \<and> (selectedInfo (completionContext params) = None \<longrightarrow>
            length (prefix r) \<le> cursorOffset params
            \<and> getTextRange (document params) (contextRange r) = prefix r @ suffix r)"
proof -
  let ?d = "document params"
  let ?o = "cursorOffset params"
  let ?t = "getText ?d"
  note ends = contextRange_ends [OF assms]
  note suf = suffix_within_document [OF assms]
  have olen: "?o \<le> length ?t" by (simp add: cursorOffset_def offsetAt_le_length)
  have e: "offsetAt ?d (rangeEnd (contextRange r)) = ?o + length (suffix r)"
    using suf(2) by (simp add: ends offsetAt_positionAt nat_add_distrib)
  have s: "length (prefix r) \<le> ?o \<Longrightarrow>
           offsetAt ?d (rangeStart (contextRange r)) = ?o - length (prefix r)"
  proof -
    assume le: "length (prefix r) \<le> ?o"
    then have "nat (int ?o - int (length (prefix r))) = ?o - length (prefix r)" by simp
    then show ?thesis using olen by (simp add: ends offsetAt_positionAt)
  qed
  have span: "length (prefix r) \<le> ?o \<Longrightarrow>
           offsetAt ?d (rangeEnd (contextRange r)) - offsetAt ?d (rangeStart (contextRange r))
             = length (prefix r) + length (suffix r)"
    using s e by simp
  have rtext: "getTextRange ?d (contextRange r) = prefix r @ suffix r"
    if none: "selectedInfo (completionContext params) = None"
  proof -
    note pre = prefix_within_document [OF assms none]
    let ?k = "?o - length (prefix r)"
    have split: "drop ?k ?t = drop ?k (take ?o ?t) @ drop ?o ?t"
    proof -
      have "drop ?k ?t = drop ?k (take ?o ?t @ drop ?o ?t)" by simp
      also have "\<dots> = drop ?k (take ?o ?t) @ drop ?o ?t"
        using olen by (simp del: append_take_drop_id)
      finally show ?thesis .
    qed
    have "getTextRange ?d (contextRange r)
            = take (length (prefix r) + length (suffix r)) (drop ?k ?t)"
      using s [OF pre(1)] span [OF pre(1)] by (simp add: getTextRange_def Let_def)
    also have "\<dots> = take (length (prefix r) + length (suffix r)) (prefix r @ drop ?o ?t)"
      using split pre(2) by simp
    also have "\<dots> = prefix r @ take (length (suffix r)) (drop ?o ?t)" by simp
    also have "\<dots> = prefix r @ suffix r" using suf(1) by simp
    finally show ?thesis .
  qed
  show ?thesis
    using ends e s span rtext prefix_within_document(1) [OF assms] by simp
qed

theorem contextRange_span_witness:
  "selectedInfo (completionContext exampleParams) = None
   \<and> length (prefix exampleResult) \<le> cursorOffset exampleParams
   \<and> getTextRange (document exampleParams) (contextRange exampleResult)
       = prefix exampleResult @ suffix exampleResult
   \<and> offsetAt (document exampleParams) (rangeEnd (contextRange exampleResult))
       - offsetAt (document exampleParams) (rangeStart (contextRange exampleResult))
       = length (prefix exampleResult) + length (suffix exampleResult)
   \<and> prefix exampleResult @ suffix exampleResult = ''de\<newline>fgh\<newline>i''
   \<and> contextRange exampleResult
       = \<lparr>rangeStart = \<lparr>line = 1, character = 0\<rparr>, rangeEnd = \<lparr>line = 3, character = 1\<rparr>\<rparr>"
proof -
  have n: "selectedInfo (completionContext exampleParams) = None" by code_simp
  have p: "prefix exampleResult @ suffix exampleResult = ''de\<newline>fgh\<newline>i''"
    by (simp add: exampleResult_def)
  have c: "contextRange exampleResult
       = \<lparr>rangeStart = \<lparr>line = 1, character = 0\<rparr>, rangeEnd = \<lparr>line = 3, character = 1\<rparr>\<rparr>"
    by (simp add: exampleResult_def)
  show ?thesis
    using contextRange_span [OF exampleResult_eval] n p c by blast
qed

section \<open>Degenerate documents\<close>

lemma searchLoop_no_candidate:
  "lineCount d < k \<Longrightarrow> searchLoop d cur k 0 best highest = Inr best"
  by (subst searchLoop.simps) simp

text \<open>
  C8. The claim fails for a cursor at the start of a document of five lines: the search
  finds a block whose score exceeds 0, and the semantic context is that block, not the
  empty one.
\<close>

theorem start_of_document_counterexample:
  "position (originParams exampleDocument) = \<lparr>line = 0, character = 0\<rparr>
   \<and> getCurrentDocContext exampleEnv (originParams exampleDocument) = Inr startResult
   \<and> semanticContextText startResult = ''abc\<newline>de\<newline>fgh\<newline>i\<newline>jkl''
   \<and> getSemanticContextWithinDocument exampleDocument \<lparr>line = 0, character = 0\<rparr> 5
       = Inr \<lparr>semanticContext = [''abc'', ''de'', ''fgh'', ''i'', ''jkl''],
              similarityScore = Finite 1\<rparr>"
  by code_simp

text \<open>
  C8, amended. When the line of the cursor exists, a context is returned; if the document
  has fewer than five lines, as the empty document with its one empty line has, the
  semantic context is the empty block with score 0.
\<close>

theorem getCurrentDocContext_defined:
  assumes "line (position params) < lineCount (document params)"
  shows "\<exists>r. getCurrentDocContext env params = Inr r
         \<and> (lineCount (document params) < 5 \<longrightarrow>
              semanticContextText r = []
              \<and> getSemanticContextWithinDocument (document params) (position params) 5
                  = Inr \<lparr>semanticContext = [], similarityScore = Finite 0\<rparr>)"
proof -
  obtain sem where sem: "getSemanticContextWithinDocument (document params) (position params) 5
                           = Inr sem"
    using getSemanticContextWithinDocument_inv [OF assms, of 5] by blast
  then obtain r where r: "getCurrentDocContext env params = Inr r"
      and t: "semanticContextText r = joinNewline (semanticContext sem)"
    by (simp add: getCurrentDocContext_def Let_def)
  have "lineCount (document params) < 5 \<longrightarrow>
          sem = \<lparr>semanticContext = [], similarityScore = Finite 0\<rparr>"
    using sem assms
    by (auto simp: getSemanticContextWithinDocument_def lineAt_def searchLoop_no_candidate)
  then show ?thesis
    using r t sem by auto
qed

theorem getCurrentDocContext_defined_witness:
  "line (position (originParams emptyDocument)) < lineCount (document (originParams emptyDocument))
   \<and> lineCount (document (originParams emptyDocument)) < 5
   \<and> (\<exists>r. getCurrentDocContext exampleEnv (originParams emptyDocument) = Inr r
        \<and> semanticContextText r = []
        \<and> getSemanticContextWithinDocument (document (originParams emptyDocument))
             (position (originParams emptyDocument)) 5
            = Inr \<lparr>semanticContext = [], similarityScore = Finite 0\<rparr>)
   \<and> getCurrentDocContext exampleEnv (originParams emptyDocument) = Inr emptyResult
   \<and> line (position exampleParams) < lineCount (document exampleParams)
   \<and> getCurrentDocContext exampleEnv exampleParams = Inr exampleResult"
proof -
  have a: "line (position (originParams emptyDocument))
             < lineCount (document (originParams emptyDocument))" by code_simp
  have b: "lineCount (document (originParams emptyDocument)) < 5" by code_simp
  have c: "getCurrentDocContext exampleEnv (originParams emptyDocument) = Inr emptyResult"
    by code_simp
  have d: "line (position exampleParams) < lineCount (document exampleParams)" by code_simp
  show ?thesis
    using getCurrentDocContext_defined [OF a, of exampleEnv] a b c d exampleResult_eval
    by blast
qed

end
